theory Spec2Isabelle
  imports Complex_Main "HOL-Library.AList"
begin

section \<open>Data model of \<open>wqb/auto_auth_session.py\<close>\<close>

text \<open>
  \<open>AutoAuthSession\<close> subclasses the HTTP session of the \<open>requests\<close> library and wraps its
  \<open>request\<close> method in two retry loops. The library session, \<open>time.sleep\<close>, \<open>float\<close> and the
  logger are collaborators: the session is a function on an abstract transport state, the other
  three are modelled by what the loops observe of them.

  Python's \<open>float\<close> values are real numbers here. The source does three things with a float:
  it takes \<open>max(0.0, x)\<close>, it passes it to \<open>time.sleep\<close>, and it formats it. In the first two
  an infinity behaves as every real beyond the range of \<open>time.sleep\<close> does (\<open>OverflowError\<close>),
  and NaN as a negative real within that range does (\<open>max(0.0, nan)\<close> is \<open>0.0\<close>, \<open>time.sleep\<close>
  raises \<open>ValueError\<close>), so the special values have no constructor of their own.

  Two exceptions can be raised by the modelled operations: \<open>ValueError\<close>, by \<open>float\<close> and by
  \<open>time.sleep\<close>, which the source handles in one place, and \<open>OverflowError\<close>, by \<open>time.sleep\<close>,
  which it handles nowhere. The library session is taken to return a response and the
  predicates to return a truth value: the source catches no exception of theirs, and the model
  has none.
\<close>

datatype error = ValueError | OverflowError

text \<open>
  The fields of a \<open>requests.Response\<close> that the source reads; \<open>resp_url\<close> and \<open>resp_text\<close>
  are its \<open>url\<close> and \<open>text\<close>. A response built by \<open>Response()\<close> has no status code, reason
  or url yet.
\<close>

record response =
  status_code :: "int option"
  headers :: "(string \<times> string) list"
  reason :: "string option"
  resp_url :: "string option"
  elapsed :: real
  resp_text :: string

text \<open>\<open>Response()\<close>: the empty response both loops start from.\<close>

definition Response :: response where
  "Response = \<lparr>status_code = None, headers = [], reason = None, resp_url = None,
     elapsed = 0, resp_text = []\<rparr>"

text \<open>
  Header lookup ignores the case of the header name, as the \<open>CaseInsensitiveDict\<close> of the
  library does (it keys its store by \<open>key.lower()\<close>).
\<close>

definition lower_char :: "char \<Rightarrow> char" where
  "lower_char c =
     (case map_of (zip ''ABCDEFGHIJKLMNOPQRSTUVWXYZ'' ''abcdefghijklmnopqrstuvwxyz'') c of
        None \<Rightarrow> c | Some d \<Rightarrow> d)"

definition lower :: "string \<Rightarrow> string" where
  "lower s = map lower_char s"

definition headers_get :: "(string \<times> string) list \<Rightarrow> string \<Rightarrow> string option" where
  "headers_get h key = map_of (map (\<lambda>(k, v). (lower k, v)) h) (lower key)"

text \<open>
  Modelled from the spec: the constant \<open>RETRY_AFTER\<close> is imported from the package's
  \<open>__init__\<close>, which is not among the sources; the spec names the header \<open>Retry-After\<close>.
\<close>

definition RETRY_AFTER :: string where
  "RETRY_AFTER = ''Retry-After''"

text \<open>
  \<open>if x is None: x = default\<close>: an optional argument that was omitted takes the default.
\<close>

definition if_none :: "'a option \<Rightarrow> 'a \<Rightarrow> 'a" where
  "if_none x dflt = (case x of None \<Rightarrow> dflt | Some v \<Rightarrow> v)"

text \<open>
  Keyword arguments are a Python \<open>dict\<close>: an association list in insertion order.
  \<open>{**a, **b}\<close> copies \<open>a\<close> and then stores every item of \<open>b\<close> in order; storing an existing
  key replaces its value in place, a new key is appended.
\<close>

definition dict_merge :: "(string \<times> 'v) list \<Rightarrow> (string \<times> 'v) list \<Rightarrow> (string \<times> 'v) list" where
  "dict_merge a b = fold (\<lambda>(k, v). AList.update k v) b a"

text \<open>The attributes that \<open>__init__\<close> stores on the session object.\<close>

record 'v session =
  self_method :: string
  self_url :: string
  self_kwargs :: "(string \<times> 'v) list"
  self_auth_expected :: "response \<Rightarrow> bool"
  self_auth_max_tries :: int
  self_auth_delay_unexpected :: real
  self_expected :: "response \<Rightarrow> bool"
  self_max_tries :: int
  self_delay_unexpected :: real
  self_logger :: string

text \<open>
  What a call does to the outside world, in order. \<open>Send\<close> is one call of the library's
  \<open>request\<close> with its arguments and the response it returned, \<open>Sleep\<close> one completed
  \<open>time.sleep\<close>, \<open>Warning\<close> and \<open>Info\<close> one message to the logger with the values the message
  is formatted from. The \<open>caller\<close> says which of the two methods made the call (the messages
  start with \<open>auth_request(...)\<close> or \<open>request(...)\<close>).
\<close>

datatype caller = ByAuthRequest | ByRequest

datatype 'v event =
    Send caller string string "'v list" "(string \<times> 'v) list" response
  | Sleep real
  | Warning caller int string string "'v list" "(string \<times> 'v) list" response
  | Info caller int string

text \<open>
  The state a call runs in: the stored attributes, the state of the library session
  (connections, cookies, the remote server), and the events so far.
\<close>

record ('t, 'v) state =
  self :: "'v session"
  transport :: 't
  trace :: "'v event list"

type_synonym ('t, 'v) super_request =
  "'t \<Rightarrow> string \<Rightarrow> string \<Rightarrow> 'v list \<Rightarrow> (string \<times> 'v) list \<Rightarrow> response \<times> 't"

text \<open>
  An exception on its way to the caller: the error, and the state reached when it was
  raised. What happened before the \<open>raise\<close> has happened, so the state is not lost with the
  result. A call ends with \<open>Inl\<close> of such a pair or with \<open>Inr\<close> of what it returns.
\<close>

type_synonym ('t, 'v) raised = "error \<times> ('t, 'v) state"

section \<open>Construction\<close>

text \<open>
  \<open>__init__\<close>, lines 28 to 38. An omitted keyword argument is \<open>None\<close> here and takes the
  default of the signature; the logger is named, \<open>logging.root\<close> being \<open>root\<close>.
\<close>

definition init ::
  "string \<Rightarrow> string \<Rightarrow> (response \<Rightarrow> bool) option \<Rightarrow> int option \<Rightarrow> real option \<Rightarrow>
   (response \<Rightarrow> bool) option \<Rightarrow> int option \<Rightarrow> real option \<Rightarrow> string option \<Rightarrow>
   (string \<times> 'v) list \<Rightarrow> 'v session" where
  "init method url auth_expected auth_max_tries auth_delay_unexpected
        expected max_tries delay_unexpected logger kwargs =
     (let auth_expected = if_none auth_expected (\<lambda>_. True);
          auth_max_tries = if_none auth_max_tries 3;
          auth_delay_unexpected = if_none auth_delay_unexpected 2;
          expected = if_none expected (\<lambda>_. True);
          max_tries = if_none max_tries 3;
          delay_unexpected = if_none delay_unexpected 2;
          logger = if_none logger ''root''
      in \<lparr>self_method = method,
          self_url = url,
          self_kwargs = kwargs,
          self_auth_expected = auth_expected,
          self_auth_max_tries = auth_max_tries,
          self_auth_delay_unexpected = auth_delay_unexpected,
          self_expected = expected,
          self_max_tries = max 1 max_tries,
          self_delay_unexpected = max 0 delay_unexpected,
          self_logger = logger\<rparr>)"

section \<open>The collaborators\<close>

text \<open>
  \<open>super().request(method, url, *args, **kwargs)\<close>: the library session answers from its own
  state and changes only that.
\<close>

definition call_super_request ::
  "('t, 'v) super_request \<Rightarrow> caller \<Rightarrow> string \<Rightarrow> string \<Rightarrow> 'v list \<Rightarrow> (string \<times> 'v) list \<Rightarrow>
   ('t, 'v) state \<Rightarrow> response \<times> ('t, 'v) state" where
  "call_super_request super_request who method url args kwargs st =
     (let (resp, t) = super_request (transport st) method url args kwargs
      in (resp, st\<lparr>transport := t, trace := trace st @ [Send who method url args kwargs resp]\<rparr>))"

text \<open>
  \<open>time.sleep(secs)\<close>. CPython first converts the length to a count of nanoseconds in a signed
  64-bit integer and raises \<open>OverflowError\<close> when the count does not fit, which is from
  \<open>2 ^ 63\<close> nanoseconds on, a little over 9.2e9 seconds (the rounding of the product to the
  next nanosecond is not modelled); only then does it raise \<open>ValueError\<close> for a negative
  length. A length it accepts is slept.
\<close>

definition sleep_limit :: real where
  "sleep_limit = 2 ^ 63 / 10 ^ 9"

definition time_sleep :: "real \<Rightarrow> ('t, 'v) state \<Rightarrow> ('t, 'v) raised + ('t, 'v) state" where
  "time_sleep secs st =
     (if secs < - sleep_limit \<or> sleep_limit \<le> secs then Inl (OverflowError, st)
      else if secs < 0 then Inl (ValueError, st)
      else Inr (st\<lparr>trace := trace st @ [Sleep secs]\<rparr>))"

definition logger_warning ::
  "caller \<Rightarrow> int \<Rightarrow> string \<Rightarrow> string \<Rightarrow> 'v list \<Rightarrow> (string \<times> 'v) list \<Rightarrow> response \<Rightarrow>
   ('t, 'v) state \<Rightarrow> ('t, 'v) state" where
  "logger_warning who tries method url args kwargs resp st =
     st\<lparr>trace := trace st @ [Warning who tries method url args kwargs resp]\<rparr>"

definition logger_info :: "caller \<Rightarrow> int \<Rightarrow> string \<Rightarrow> ('t, 'v) state \<Rightarrow> ('t, 'v) state" where
  "logger_info who tries msg st = st\<lparr>trace := trace st @ [Info who tries msg]\<rparr>"

section \<open>The retry loops\<close>

text \<open>
  The rate-limit block, lines 86 to 93 and again lines 152 to 159: \<open>float(retry_after)\<close>
  (the parameter \<open>py_float\<close>, \<open>None\<close> where \<open>float\<close> raises \<open>ValueError\<close>) and the sleep are
  inside the \<open>try\<close>. \<open>except ValueError\<close> handles a \<open>ValueError\<close> of either by sleeping the
  fixed delay; that sleep is outside the \<open>try\<close>. An \<open>OverflowError\<close> of the sleep in the \<open>try\<close>
  passes the handler.
\<close>

definition honor_retry_after ::
  "(string \<Rightarrow> real option) \<Rightarrow> response \<Rightarrow> real \<Rightarrow> ('t, 'v) state \<Rightarrow>
   ('t, 'v) raised + ('t, 'v) state" where
  "honor_retry_after py_float resp delay_unexpected st =
     (let retry_after = headers_get (headers resp) RETRY_AFTER;
          tried = (case retry_after of
                     Some ra \<Rightarrow> (case py_float ra of
                                  None \<Rightarrow> Inl (ValueError, st)
                                | Some secs \<Rightarrow> time_sleep secs st)
                   | None \<Rightarrow> time_sleep delay_unexpected st)
      in case tried of
           Inl (ValueError, st') \<Rightarrow> time_sleep delay_unexpected st'
         | Inl (OverflowError, st') \<Rightarrow> Inl (OverflowError, st')
         | Inr st' \<Rightarrow> Inr st')"

text \<open>
  \<open>for tries in range(1, 1 + max_tries): ... else: ...\<close>. The body answers whether it left
  the loop by \<open>break\<close>; the loop answers \<open>True\<close> when a body did and \<open>False\<close> when the range
  ran out, which is when the \<open>else\<close> branch runs. An exception raised in a body ends the loop.
\<close>

fun for_else ::
  "(int \<Rightarrow> 's \<Rightarrow> 'e + (bool \<times> 's)) \<Rightarrow> int list \<Rightarrow> 's \<Rightarrow> 'e + (bool \<times> 's)" where
  "for_else body [] s = Inr (False, s)"
| "for_else body (i # is) s =
     (case body i s of
        Inl e \<Rightarrow> Inl e
      | Inr (True, s') \<Rightarrow> Inr (True, s')
      | Inr (False, s') \<Rightarrow> for_else body is s')"

text \<open>The local variables a loop body assigns: \<open>tries\<close> and \<open>resp\<close>, next to the state.\<close>

type_synonym ('t, 'v) locals = "int \<times> response \<times> ('t, 'v) state"

text \<open>The body of the loop of \<open>auth_request\<close>, lines 81 to 95.\<close>

definition auth_request_body ::
  "('t, 'v) super_request \<Rightarrow> (string \<Rightarrow> real option) \<Rightarrow> string \<Rightarrow> string \<Rightarrow> 'v list \<Rightarrow>
   (string \<times> 'v) list \<Rightarrow> (response \<Rightarrow> bool) \<Rightarrow> real \<Rightarrow>
   int \<Rightarrow> ('t, 'v) locals \<Rightarrow> ('t, 'v) raised + (bool \<times> ('t, 'v) locals)" where
  "auth_request_body super_request py_float method url args kwargs expected delay_unexpected
       tries loc =
     (let (resp, st1) = call_super_request super_request ByAuthRequest method url args kwargs
                          (snd (snd loc))
      in if expected resp then Inr (True, (tries, resp, st1))
         else case (if status_code resp = Some 429
                    then honor_retry_after py_float resp delay_unexpected st1
                    else time_sleep delay_unexpected st1) of
                Inl e \<Rightarrow> Inl e
              | Inr st2 \<Rightarrow> Inr (False, (tries, resp, st2)))"

text \<open>\<open>auth_request\<close>, lines 64 to 118. An omitted optional argument is \<open>None\<close>;
  \<open>log_tag\<close> is the argument \<open>log\<close>.\<close>

definition auth_request ::
  "('t, 'v) super_request \<Rightarrow> (string \<Rightarrow> real option) \<Rightarrow> ('t, 'v) state \<Rightarrow>
   string option \<Rightarrow> string option \<Rightarrow> 'v list \<Rightarrow> (response \<Rightarrow> bool) option \<Rightarrow> int option \<Rightarrow>
   real option \<Rightarrow> string option \<Rightarrow> (string \<times> 'v) list \<Rightarrow>
   ('t, 'v) raised + (response \<times> ('t, 'v) state)" where
  "auth_request super_request py_float st method url args expected max_tries delay_unexpected
       log_tag kwargs =
     (let method = if_none method (self_method (self st));
          url = if_none url (self_url (self st));
          kwargs = dict_merge (self_kwargs (self st)) kwargs;
          expected = if_none expected (self_auth_expected (self st));
          max_tries = if_none max_tries (self_auth_max_tries (self st));
          delay_unexpected = if_none delay_unexpected (self_auth_delay_unexpected (self st));
          max_tries = max 1 max_tries;
          delay_unexpected = max 0 delay_unexpected
      in case for_else (auth_request_body super_request py_float method url args kwargs
                          expected delay_unexpected)
                [1..max_tries] (0, Response, st) of
           Inl e \<Rightarrow> Inl e
         | Inr (broke, tries, resp, st1) \<Rightarrow>
             (let st2 = (if broke then st1
                         else logger_warning ByAuthRequest tries method url args kwargs resp st1);
                  st3 = (case log_tag of
                           None \<Rightarrow> st2
                         | Some tag \<Rightarrow> logger_info ByAuthRequest tries tag st2)
              in Inr (resp, st3)))"

text \<open>
  The body of the loop of \<open>request\<close>, lines 142 to 161. \<open>self.auth_request()\<close> passes nothing,
  so every optional argument is \<open>None\<close> and there are no positional or keyword arguments;
  the response it returns is dropped, an exception it raises is not caught.
\<close>

definition request_body ::
  "('t, 'v) super_request \<Rightarrow> (string \<Rightarrow> real option) \<Rightarrow> string \<Rightarrow> string \<Rightarrow> 'v list \<Rightarrow>
   (string \<times> 'v) list \<Rightarrow> (response \<Rightarrow> bool) \<Rightarrow> real \<Rightarrow>
   int \<Rightarrow> ('t, 'v) locals \<Rightarrow> ('t, 'v) raised + (bool \<times> ('t, 'v) locals)" where
  "request_body super_request py_float method url args kwargs expected delay_unexpected
       tries loc =
     (let (resp, st1) = call_super_request super_request ByRequest method url args kwargs
                          (snd (snd loc))
      in if expected resp then Inr (True, (tries, resp, st1))
         else case (if status_code resp = Some 401
                    then (case auth_request super_request py_float st1
                                 None None [] None None None None [] of
                            Inl e \<Rightarrow> Inl e
                          | Inr (_, st2) \<Rightarrow> time_sleep delay_unexpected st2)
                    else if status_code resp = Some 429
                    then honor_retry_after py_float resp delay_unexpected st1
                    else time_sleep delay_unexpected st1) of
                Inl e \<Rightarrow> Inl e
              | Inr st3 \<Rightarrow> Inr (False, (tries, resp, st3)))"

text \<open>\<open>request\<close>, lines 131 to 184.\<close>

definition request ::
  "('t, 'v) super_request \<Rightarrow> (string \<Rightarrow> real option) \<Rightarrow> ('t, 'v) state \<Rightarrow>
   string \<Rightarrow> string \<Rightarrow> 'v list \<Rightarrow> (response \<Rightarrow> bool) option \<Rightarrow> int option \<Rightarrow>
   real option \<Rightarrow> string option \<Rightarrow> (string \<times> 'v) list \<Rightarrow>
   ('t, 'v) raised + (response \<times> ('t, 'v) state)" where
  "request super_request py_float st method url args expected max_tries delay_unexpected
       log_tag kwargs =
     (let expected = if_none expected (self_expected (self st));
          max_tries = if_none max_tries (self_max_tries (self st));
          delay_unexpected = if_none delay_unexpected (self_delay_unexpected (self st));
          max_tries = max 1 max_tries;
          delay_unexpected = max 0 delay_unexpected
      in case for_else (request_body super_request py_float method url args kwargs
                          expected delay_unexpected)
                [1..max_tries] (0, Response, st) of
           Inl e \<Rightarrow> Inl e
         | Inr (broke, tries, resp, st1) \<Rightarrow>
             (let st2 = (if broke then st1
                         else logger_warning ByRequest tries method url args kwargs resp st1);
                  st3 = (case log_tag of
                           None \<Rightarrow> st2
                         | Some tag \<Rightarrow> logger_info ByRequest tries tag st2)
              in Inr (resp, st3)))"

section \<open>Vocabulary of the statements\<close>

text \<open>Events by kind and caller: the calls of the library's \<open>request\<close> and the warnings.\<close>

fun is_send :: "caller \<Rightarrow> 'v event \<Rightarrow> bool" where
  "is_send who (Send w _ _ _ _ _) = (w = who)"
| "is_send who _ = False"

fun is_warning :: "caller \<Rightarrow> 'v event \<Rightarrow> bool" where
  "is_warning who (Warning w _ _ _ _ _ _) = (w = who)"
| "is_warning who _ = False"

text \<open>How often the transport was called, by one method and in all.\<close>

definition calls_by :: "caller \<Rightarrow> 'v event list \<Rightarrow> nat" where
  "calls_by who evs = length (filter (is_send who) evs)"

definition transport_calls :: "'v event list \<Rightarrow> nat" where
  "transport_calls evs = calls_by ByAuthRequest evs + calls_by ByRequest evs"

text \<open>The lengths slept, in order.\<close>

fun sleeps :: "'v event list \<Rightarrow> real list" where
  "sleeps [] = []"
| "sleeps (Sleep secs # evs) = secs # sleeps evs"
| "sleeps (_ # evs) = sleeps evs"

text \<open>
  The state in which a call ends, whether it returns or raises, and the exception it raises,
  if any.
\<close>

definition final_state :: "('t, 'v) raised + response \<times> ('t, 'v) state \<Rightarrow> ('t, 'v) state" where
  "final_state res = (case res of Inl (_, st) \<Rightarrow> st | Inr (_, st) \<Rightarrow> st)"

definition exception_of :: "('t, 'v) raised + response \<times> ('t, 'v) state \<Rightarrow> error option" where
  "exception_of res = (case res of Inl (e, _) \<Rightarrow> Some e | Inr _ \<Rightarrow> None)"

text \<open>The events of a call that started with an empty trace, up to its return or its raise.\<close>

definition events_of :: "('t, 'v) raised + response \<times> ('t, 'v) state \<Rightarrow> 'v event list" where
  "events_of res = trace (final_state res)"

abbreviation st_of :: "('t, 'v) locals \<Rightarrow> ('t, 'v) state" where
  "st_of loc \<equiv> snd (snd loc)"

text \<open>The state in which a loop, or one run of its body, ends.\<close>

definition loop_state :: "('t, 'v) raised + bool \<times> ('t, 'v) locals \<Rightarrow> ('t, 'v) state" where
  "loop_state res = (case res of Inl (_, st) \<Rightarrow> st | Inr (_, loc) \<Rightarrow> st_of loc)"

text \<open>
  What the proofs need of a loop body: it calls the transport once with the call's arguments;
  it then either answers whether the response was accepted or, the response rejected, raises
  \<open>OverflowError\<close>; it keeps the stored attributes; and after the call of the transport it adds
  events only when the response was rejected, none of them a call of the transport by the same
  method.
\<close>

definition retry_body ::
  "caller \<Rightarrow> string \<Rightarrow> string \<Rightarrow> 'v list \<Rightarrow> (string \<times> 'v) list \<Rightarrow> (response \<Rightarrow> bool) \<Rightarrow>
   (int \<Rightarrow> ('t, 'v) locals \<Rightarrow> ('t, 'v) raised + (bool \<times> ('t, 'v) locals)) \<Rightarrow> bool" where
  "retry_body who method url args kwargs expected body =
     (\<forall>i loc. \<exists>r st1 tail ok.
        body i loc = (if ok then Inr (expected r, (i, r, st1)) else Inl (OverflowError, st1)) \<and>
        (expected r \<longrightarrow> ok) \<and>
        self st1 = self (st_of loc) \<and>
        trace st1 = trace (st_of loc) @ Send who method url args kwargs r # tail \<and>
        (\<forall>x \<in> set tail. \<not> is_send who x) \<and>
        (expected r \<longrightarrow> tail = []))"

text \<open>
  The sleep after a rejected response, for a fixed delay that is not negative: the length
  slept, or \<open>None\<close> when \<open>time.sleep\<close> raises \<open>OverflowError\<close>. \<open>fixed_sleep\<close> is the sleep of the
  fixed delay, \<open>rate_limit_secs\<close> that of the rate-limit block, \<open>backoff\<close> that of a loop body
  after a response that does not make it authenticate again.
\<close>

definition fixed_sleep :: "real \<Rightarrow> real option" where
  "fixed_sleep d = (if sleep_limit \<le> d then None else Some d)"

definition rate_limit_secs :: "(string \<Rightarrow> real option) \<Rightarrow> response \<Rightarrow> real \<Rightarrow> real option" where
  "rate_limit_secs pf resp d =
     (case headers_get (headers resp) RETRY_AFTER of
        None \<Rightarrow> fixed_sleep d
      | Some ra \<Rightarrow>
          (case pf ra of
             None \<Rightarrow> fixed_sleep d
           | Some secs \<Rightarrow>
               if secs < - sleep_limit \<or> sleep_limit \<le> secs then None
               else if secs < 0 then fixed_sleep d
               else Some secs))"

definition backoff :: "(string \<Rightarrow> real option) \<Rightarrow> response \<Rightarrow> real \<Rightarrow> real option" where
  "backoff pf resp d =
     (if status_code resp = Some 429 then rate_limit_secs pf resp d else fixed_sleep d)"

section \<open>Concrete inputs\<close>

text \<open>
  A transport that answers from a script, whatever it is asked: its state is the list of the
  responses still to come, and it answers 200 once the script is used up.
\<close>

definition answer :: "int \<Rightarrow> (string \<times> string) list \<Rightarrow> response" where
  "answer code hdrs = \<lparr>status_code = Some code, headers = hdrs, reason = Some ''reason'',
     resp_url = Some ''/final'', elapsed = 0, resp_text = ''body''\<rparr>"

definition scripted :: "(response list, string) super_request" where
  "scripted script method url args kwargs =
     (case script of [] \<Rightarrow> (answer 200 [], []) | r # rs \<Rightarrow> (r, rs))"

text \<open>
  \<open>float\<close> on the header values used below: \<open>5\<close> and \<open>1e20\<close> parse, \<open>soon\<close> does not.
  \<open>float_5\<close> knows the first only.
\<close>

definition float_5 :: "string \<Rightarrow> real option" where
  "float_5 s = (if s = ''5'' then Some 5 else None)"

definition float_1e20 :: "string \<Rightarrow> real option" where
  "float_1e20 s = (if s = ''5'' then Some 5 else if s = ''1e20'' then Some (10 ^ 20) else None)"

definition never :: "response \<Rightarrow> bool" where
  "never resp = False"

definition is_200 :: "response \<Rightarrow> bool" where
  "is_200 resp = (status_code resp = Some 200)"

text \<open>A session built with the defaults, and the state of a first call on it.\<close>

definition session0 :: "string session" where
  "session0 = init ''POST'' ''/authentication'' None None None None None None None
     [(''json'', ''credentials'')]"

definition fresh :: "'t \<Rightarrow> ('t, string) state" where
  "fresh t = \<lparr>self = session0, transport = t, trace = []\<rparr>"

text \<open>A transport that answers 500 to every call and counts the calls.\<close>

definition steady :: "(nat, string) super_request" where
  "steady n method url args kwargs = (answer 500 [], Suc n)"

text \<open>
  Three rate-limited responses: one names a number of seconds, one names no number, one
  names more seconds than \<open>time.sleep\<close> takes.
\<close>

definition limited :: response where
  "limited = answer 429 [(''retry-after'', ''5'')]"

definition vague :: response where
  "vague = answer 429 [(''Retry-After'', ''soon'')]"

definition endless :: response where
  "endless = answer 429 [(''Retry-After'', ''1e20'')]"

section \<open>The collaborators and the loop bodies, step by step\<close>

lemma sleep_limit_pos: "0 < sleep_limit"
  by (simp add: sleep_limit_def)

lemma time_sleep_fixed:
  "0 \<le> d \<Longrightarrow> time_sleep d st =
     (case fixed_sleep d of
        None \<Rightarrow> Inl (OverflowError, st)
      | Some x \<Rightarrow> Inr (st\<lparr>trace := trace st @ [Sleep x]\<rparr>))"
  using sleep_limit_pos by (simp add: time_sleep_def fixed_sleep_def)

lemma honor_retry_after_eq:
  "0 \<le> d \<Longrightarrow> honor_retry_after pf resp d st =
     (case rate_limit_secs pf resp d of
        None \<Rightarrow> Inl (OverflowError, st)
      | Some x \<Rightarrow> Inr (st\<lparr>trace := trace st @ [Sleep x]\<rparr>))"
  using sleep_limit_pos
  by (simp add: honor_retry_after_def rate_limit_secs_def time_sleep_def fixed_sleep_def
      split: option.splits)

lemma auth_request_body_eq:
  assumes "0 \<le> d" and "super_request (transport (st_of loc)) method url args kwargs = (r, t)"
  shows "auth_request_body super_request pf method url args kwargs expected d i loc =
     (if expected r
      then Inr (True, (i, r, (st_of loc)\<lparr>transport := t,
             trace := trace (st_of loc) @ [Send ByAuthRequest method url args kwargs r]\<rparr>))
      else case backoff pf r d of
             None \<Rightarrow> Inl (OverflowError, (st_of loc)\<lparr>transport := t,
               trace := trace (st_of loc) @ [Send ByAuthRequest method url args kwargs r]\<rparr>)
           | Some x \<Rightarrow> Inr (False, (i, r, (st_of loc)\<lparr>transport := t,
               trace := trace (st_of loc) @
                 [Send ByAuthRequest method url args kwargs r, Sleep x]\<rparr>)))"
  using assms
  by (simp add: auth_request_body_def call_super_request_def honor_retry_after_eq
      time_sleep_fixed backoff_def split: option.splits)

lemma retry_bodyE:
  assumes "retry_body who method url args kwargs expected body"
  obtains r st1 tail ok where
    "body i loc = (if ok then Inr (expected r, (i, r, st1)) else Inl (OverflowError, st1))"
    "expected r \<longrightarrow> ok"
    "self st1 = self (st_of loc)"
    "trace st1 = trace (st_of loc) @ Send who method url args kwargs r # tail"
    "\<forall>x \<in> set tail. \<not> is_send who x"
    "expected r \<longrightarrow> tail = []"
  using assms unfolding retry_body_def by blast

lemma retry_bodyI:
  assumes "\<And>i loc. \<exists>r st1 tail ok.
        body i loc = (if ok then Inr (expected r, (i, r, st1)) else Inl (OverflowError, st1)) \<and>
        (expected r \<longrightarrow> ok) \<and>
        self st1 = self (st_of loc) \<and>
        trace st1 = trace (st_of loc) @ Send who method url args kwargs r # tail \<and>
        (\<forall>x \<in> set tail. \<not> is_send who x) \<and>
        (expected r \<longrightarrow> tail = [])"
  shows "retry_body who method url args kwargs expected body"
  unfolding retry_body_def using assms by blast

lemma auth_request_body_retry:
  fixes super_request :: "('t, 'v) super_request"
  assumes "0 \<le> d"
  shows "retry_body ByAuthRequest method url args kwargs expected
           (auth_request_body super_request pf method url args kwargs expected d)"
proof (rule retry_bodyI)
  fix i and loc :: "('t, 'v) locals"
  let ?body = "auth_request_body super_request pf method url args kwargs expected d"
  obtain r t where rt: "super_request (transport (st_of loc)) method url args kwargs = (r, t)"
    by (cases "super_request (transport (st_of loc)) method url args kwargs")
  note b = auth_request_body_eq [where super_request = super_request and expected = expected,
      OF assms rt, of pf i]
  let ?sent = "(st_of loc)\<lparr>transport := t,
             trace := trace (st_of loc) @ [Send ByAuthRequest method url args kwargs r]\<rparr>"
  let ?goal = "\<lambda>r st1 tail ok.
        ?body i loc = (if ok then Inr (expected r, (i, r, st1)) else Inl (OverflowError, st1)) \<and>
        (expected r \<longrightarrow> ok) \<and>
        self st1 = self (st_of loc) \<and>
        trace st1 = trace (st_of loc) @ Send ByAuthRequest method url args kwargs r # tail \<and>
        (\<forall>x \<in> set tail. \<not> is_send ByAuthRequest x) \<and>
        (expected r \<longrightarrow> tail = [])"
  consider (acc) "expected r" | (raise) "\<not> expected r" "backoff pf r d = None"
    | (slept) x where "\<not> expected r" "backoff pf r d = Some x"
    by (cases "backoff pf r d") auto
  then have "\<exists>st1 tail ok. ?goal r st1 tail ok"
  proof cases
    case acc
    then have "?goal r ?sent [] True" using b by simp
    then show ?thesis by blast
  next
    case raise
    then have "?goal r ?sent [] False" using b by simp
    then show ?thesis by blast
  next
    case slept
    then have "?goal r (?sent\<lparr>trace := trace ?sent @ [Sleep x]\<rparr>) [Sleep x] True" using b by simp
    then show ?thesis by blast
  qed
  then show "\<exists>r st1 tail ok. ?goal r st1 tail ok" ..
qed

subsection \<open>Splitting a trace at an event\<close>

lemma split_after_tail:
  assumes "tail @ evs = pre @ e # post" and "\<forall>x \<in> set tail. \<not> P x" and "P e"
  shows "\<exists>pre'. pre = tail @ pre' \<and> evs = pre' @ e # post"
  using assms
proof (induction tail arbitrary: pre)
  case Nil
  then show ?case by simp
next
  case (Cons x tail)
  then show ?case by (cases pre) auto
qed

lemma split_before_rest:
  assumes "evs @ rest = pre @ e # post" and "\<forall>x \<in> set rest. \<not> P x" and "P e"
  shows "\<exists>post'. evs = pre @ e # post' \<and> post = post' @ rest"
  using assms
proof (induction pre arbitrary: evs)
  case Nil
  then show ?case by (cases evs) auto
next
  case (Cons x pre)
  then show ?case by (cases evs) auto
qed

lemma last_send:
  assumes "0 < length (filter P evs)"
  shows "\<exists>pre e post. evs = pre @ e # post \<and> P e \<and> (\<forall>x \<in> set post. \<not> P x)"
proof -
  from assms have "\<exists>x \<in> set evs. P x"
    by (simp add: filter_empty_conv)
  from split_list_last_prop [OF this] show ?thesis by blast
qed

subsection \<open>The loop, for any such body\<close>

lemma for_else_retry_step:
  assumes "retry_body who method url args kwargs expected body"
  obtains r st1 tail ok where
    "body i loc = (if ok then Inr (expected r, (i, r, st1)) else Inl (OverflowError, st1))"
    "expected r \<longrightarrow> ok"
    "self st1 = self (st_of loc)"
    "trace st1 = trace (st_of loc) @ Send who method url args kwargs r # tail"
    "\<forall>x \<in> set tail. \<not> is_send who x"
    "expected r \<longrightarrow> tail = []"
    "for_else body (i # is) loc =
       (if expected r then Inr (True, i, r, st1)
        else if ok then for_else body is (i, r, st1)
        else Inl (OverflowError, st1))"
proof -
  from assms obtain r st1 tail ok where
    b: "body i loc = (if ok then Inr (expected r, (i, r, st1)) else Inl (OverflowError, st1))" and
    rest: "expected r \<longrightarrow> ok"
      "self st1 = self (st_of loc)"
      "trace st1 = trace (st_of loc) @ Send who method url args kwargs r # tail"
      "\<forall>x \<in> set tail. \<not> is_send who x"
      "expected r \<longrightarrow> tail = []"
    by (rule retry_bodyE)
  from b rest(1) have "for_else body (i # is) loc =
       (if expected r then Inr (True, i, r, st1)
        else if ok then for_else body is (i, r, st1)
        else Inl (OverflowError, st1))"
    by auto
  with b rest show thesis by (rule that)
qed

lemma loop_state_simps:
  "loop_state (Inl (e, st)) = st"
  "loop_state (Inr (b, tries, resp, st)) = st"
  by (simp_all add: loop_state_def)

lemma for_else_error:
  assumes body: "retry_body who method url args kwargs expected body"
    and "for_else body is loc = Inl (e, st')"
  shows "e = OverflowError"
  using assms(2)
proof (induction "is" arbitrary: loc)
  case Nil
  then show ?case by simp
next
  case (Cons i "is")
  from body obtain r st1 ok where
    u: "for_else body (i # is) loc =
       (if expected r then Inr (True, i, r, st1)
        else if ok then for_else body is (i, r, st1)
        else Inl (OverflowError, st1))"
    by (rule for_else_retry_step)
  from u Cons.prems Cons.IH [of "(i, r, st1)"] show ?case
    by (auto simp del: for_else.simps split: if_splits)
qed

lemma for_else_self:
  assumes body: "retry_body who method url args kwargs expected body"
  shows "self (loop_state (for_else body is loc)) = self (st_of loc)"
proof (induction "is" arbitrary: loc)
  case Nil
  show ?case by (simp add: loop_state_def)
next
  case (Cons i "is")
  from body obtain r st1 ok where
    s: "self st1 = self (st_of loc)" and
    u: "for_else body (i # is) loc =
       (if expected r then Inr (True, i, r, st1)
        else if ok then for_else body is (i, r, st1)
        else Inl (OverflowError, st1))"
    by (rule for_else_retry_step)
  from Cons.IH [of "(i, r, st1)"] s show ?case
    unfolding u by (simp add: loop_state_simps)
qed

lemma for_else_trace:
  assumes body: "retry_body who method url args kwargs expected body"
  shows "\<exists>evs. trace (loop_state (for_else body is loc)) = trace (st_of loc) @ evs \<and>
           (is = [] \<longrightarrow> evs = [] \<and> for_else body is loc = Inr (False, loc)) \<and>
           (is \<noteq> [] \<longrightarrow> (\<exists>r rest. evs = Send who method url args kwargs r # rest)) \<and>
           length (filter (is_send who) evs) \<le> length is \<and>
           ((\<exists>loc'. for_else body is loc = Inr (False, loc')) \<longrightarrow>
              length (filter (is_send who) evs) = length is)"
proof (induction "is" arbitrary: loc)
  case Nil
  show ?case by (simp add: loop_state_def)
next
  case (Cons i "is")
  from body obtain r st1 tail ok where
    t: "trace st1 = trace (st_of loc) @ Send who method url args kwargs r # tail" and
    n: "\<forall>x \<in> set tail. \<not> is_send who x" and
    e: "expected r \<longrightarrow> tail = []" and
    u: "for_else body (i # is) loc =
       (if expected r then Inr (True, i, r, st1)
        else if ok then for_else body is (i, r, st1)
        else Inl (OverflowError, st1))"
    by (rule for_else_retry_step)
  consider (acc) "expected r" | (raise) "\<not> expected r" "\<not> ok" | (go) "\<not> expected r" "ok"
    by blast
  then show ?case
  proof cases
    case acc
    with u t e show ?thesis by (simp add: loop_state_simps del: for_else.simps)
  next
    case raise
    with u t n show ?thesis
      by (intro exI [of _ "Send who method url args kwargs r # tail"])
        (simp add: loop_state_simps del: for_else.simps)
  next
    case go
    with u have eq: "for_else body (i # is) loc = for_else body is (i, r, st1)"
      by (simp del: for_else.simps)
    from Cons.IH [of "(i, r, st1)"] obtain evs where
      "trace (loop_state (for_else body is (i, r, st1))) = trace st1 @ evs"
      "length (filter (is_send who) evs) \<le> length is"
      "(\<exists>loc'. for_else body is (i, r, st1) = Inr (False, loc')) \<longrightarrow>
         length (filter (is_send who) evs) = length is"
      by auto
    with t n show ?thesis
      unfolding eq
      by (intro exI [of _ "Send who method url args kwargs r # tail @ evs"]) simp
  qed
qed

lemma for_else_broke:
  assumes body: "retry_body who method url args kwargs expected body"
    and "for_else body is loc = Inr (True, tries, resp, st')"
    and "trace st' = trace (st_of loc) @ evs"
  shows "expected resp \<and>
         (\<exists>pre. evs = pre @ [Send who method url args kwargs resp] \<and>
            length (filter (is_send who) pre) < length is \<and>
            tries = is ! length (filter (is_send who) pre))"
  using assms(2,3)
proof (induction "is" arbitrary: loc evs)
  case Nil
  then show ?case by auto
next
  case (Cons i "is")
  from body obtain r st1 tail ok where
    t: "trace st1 = trace (st_of loc) @ Send who method url args kwargs r # tail" and
    n: "\<forall>x \<in> set tail. \<not> is_send who x" and
    e: "expected r \<longrightarrow> tail = []" and
    u: "for_else body (i # is) loc =
       (if expected r then Inr (True, i, r, st1)
        else if ok then for_else body is (i, r, st1)
        else Inl (OverflowError, st1))"
    by (rule for_else_retry_step)
  show ?case
  proof (cases "expected r")
    case True
    with u Cons.prems t e show ?thesis by (simp del: for_else.simps)
  next
    case False
    with u Cons.prems have run: "for_else body is (i, r, st1) = Inr (True, tries, resp, st')"
      by (simp del: for_else.simps split: if_splits)
    from for_else_trace [OF body, of "is" "(i, r, st1)"] obtain evs' where
      t': "trace st' = trace st1 @ evs'"
      unfolding run by (auto simp: loop_state_simps)
    from Cons.IH [OF run, of evs'] t' obtain pre where
      ih: "expected resp" "evs' = pre @ [Send who method url args kwargs resp]"
        "length (filter (is_send who) pre) < length is"
        "tries = is ! length (filter (is_send who) pre)"
      by auto
    from t t' Cons.prems(2) have "evs = Send who method url args kwargs r # tail @ evs'" by simp
    with ih n show ?thesis
      by (intro conjI exI [of _ "Send who method url args kwargs r # tail @ pre"]) simp_all
  qed
qed

lemma for_else_exhausted:
  assumes body: "retry_body who method url args kwargs expected body"
    and "for_else body is loc = Inr (False, tries, resp, st')"
    and "trace st' = trace (st_of loc) @ evs"
    and "is \<noteq> []"
  shows "tries = last is \<and> \<not> expected resp \<and>
         (\<exists>pre tail. evs = pre @ Send who method url args kwargs resp # tail \<and>
            (\<forall>x \<in> set tail. \<not> is_send who x))"
  using assms(2,3,4)
proof (induction "is" arbitrary: loc evs)
  case Nil
  then show ?case by auto
next
  case (Cons i "is")
  from body obtain r st1 tail ok where
    t: "trace st1 = trace (st_of loc) @ Send who method url args kwargs r # tail" and
    n: "\<forall>x \<in> set tail. \<not> is_send who x" and
    u: "for_else body (i # is) loc =
       (if expected r then Inr (True, i, r, st1)
        else if ok then for_else body is (i, r, st1)
        else Inl (OverflowError, st1))"
    by (rule for_else_retry_step)
  from u Cons.prems(1) have ne: "\<not> expected r"
    by (auto simp del: for_else.simps split: if_splits)
  with u Cons.prems have run: "for_else body is (i, r, st1) = Inr (False, tries, resp, st')"
    by (simp del: for_else.simps split: if_splits)
  from for_else_trace [OF body, of "is" "(i, r, st1)"] obtain evs' where
    t': "trace st' = trace st1 @ evs'" and nil: "is = [] \<longrightarrow> evs' = []"
    unfolding run by (auto simp: loop_state_simps)
  from t t' Cons.prems(2) have evs: "evs = Send who method url args kwargs r # tail @ evs'"
    by simp
  show ?case
  proof (cases "is = []")
    case True
    with run have "tries = i" "resp = r" by simp_all
    with True nil evs n ne show ?thesis
      by (intro conjI exI [of _ "[]"] exI [of _ tail]) simp_all
  next
    case False
    from Cons.IH [OF run, of evs'] t' False obtain pre tl where
      ih: "tries = last is" "\<not> expected resp"
        "evs' = pre @ Send who method url args kwargs resp # tl"
        "\<forall>x \<in> set tl. \<not> is_send who x"
      by auto
    with evs False show ?thesis
      by (intro conjI exI [of _ "Send who method url args kwargs r # tail @ pre"] exI [of _ tl])
        simp_all
  qed
qed

lemma for_else_all_events:
  assumes body: "\<And>i loc. \<exists>evs. trace (loop_state (body i loc)) = trace (st_of loc) @ evs \<and>
             (\<forall>x \<in> set evs. Q x)"
  shows "\<exists>evs. trace (loop_state (for_else body is loc)) = trace (st_of loc) @ evs \<and>
           (\<forall>x \<in> set evs. Q x)"
proof (induction "is" arbitrary: loc)
  case Nil
  show ?case by (simp add: loop_state_def)
next
  case (Cons i "is")
  from body [of i loc] obtain evs1 where
    1: "trace (loop_state (body i loc)) = trace (st_of loc) @ evs1" "\<forall>x \<in> set evs1. Q x"
    by blast
  show ?case
  proof (cases "body i loc")
    case (Inl e)
    with 1 show ?thesis by (intro exI [of _ evs1]) simp
  next
    case (Inr p)
    obtain b1 loc1 where p: "p = (b1, loc1)" by (cases p)
    from 1 Inr p have t1: "trace (st_of loc1) = trace (st_of loc) @ evs1"
      by (simp add: loop_state_def)
    show ?thesis
    proof (cases b1)
      case True
      with Inr p t1 1 show ?thesis
        by (intro exI [of _ evs1]) (simp add: loop_state_def)
    next
      case False
      with Inr p have eq: "for_else body (i # is) loc = for_else body is loc1" by simp
      from Cons.IH [of loc1] obtain evs2 where
        "trace (loop_state (for_else body is loc1)) = trace (st_of loc1) @ evs2"
        "\<forall>x \<in> set evs2. Q x" by blast
      with 1 t1 show ?thesis
        unfolding eq by (intro exI [of _ "evs1 @ evs2"]) auto
    qed
  qed
qed

lemma for_else_locate:
  assumes body: "retry_body who method url args kwargs expected body"
    and "trace (loop_state (for_else body is loc)) = trace (st_of loc) @ pre @ e # post"
    and "is_send who e"
  shows "\<exists>loc_i r_i st_i more ok.
           length (filter (is_send who) pre) < length is \<and>
           body (is ! length (filter (is_send who) pre)) loc_i =
             (if ok then Inr (expected r_i, (is ! length (filter (is_send who) pre), r_i, st_i))
              else Inl (OverflowError, st_i)) \<and>
           (expected r_i \<longrightarrow> ok) \<and>
           self (st_of loc_i) = self (st_of loc) \<and>
           trace (st_of loc_i) = trace (st_of loc) @ pre \<and>
           trace (loop_state (for_else body is loc)) = trace st_i @ more \<and>
           (\<not> ok \<longrightarrow> more = [] \<and> for_else body is loc = Inl (OverflowError, st_i)) \<and>
           (expected r_i \<longrightarrow> more = [] \<and>
              for_else body is loc =
                Inr (True, is ! length (filter (is_send who) pre), r_i, st_i)) \<and>
           (ok \<and> \<not> expected r_i \<and> Suc (length (filter (is_send who) pre)) = length is \<longrightarrow>
              more = [] \<and>
              for_else body is loc =
                Inr (False, is ! length (filter (is_send who) pre), r_i, st_i)) \<and>
           (ok \<and> \<not> expected r_i \<and> Suc (length (filter (is_send who) pre)) < length is \<longrightarrow>
              (\<exists>r' rest. more = Send who method url args kwargs r' # rest))"
  using assms(2)
proof (induction "is" arbitrary: loc pre)
  case Nil
  then show ?case by (simp add: loop_state_def)
next
  case (Cons i "is")
  from body obtain r st1 tail ok0 where
    bd: "body i loc = (if ok0 then Inr (expected r, (i, r, st1)) else Inl (OverflowError, st1))" and
    oki: "expected r \<longrightarrow> ok0" and
    s: "self st1 = self (st_of loc)" and
    t: "trace st1 = trace (st_of loc) @ Send who method url args kwargs r # tail" and
    n: "\<forall>x \<in> set tail. \<not> is_send who x" and
    e: "expected r \<longrightarrow> tail = []" and
    u: "for_else body (i # is) loc =
       (if expected r then Inr (True, i, r, st1)
        else if ok0 then for_else body is (i, r, st1)
        else Inl (OverflowError, st1))"
    by (rule for_else_retry_step)
  consider (acc) "expected r" | (raise) "\<not> expected r" "\<not> ok0" | (go) "\<not> expected r" "ok0"
    by blast
  then show ?case
  proof cases
    case acc
    with u have res: "for_else body (i # is) loc = Inr (True, i, r, st1)"
      by (simp del: for_else.simps)
    with t e acc Cons.prems have "pre @ e # post = [Send who method url args kwargs r]"
      by (simp add: loop_state_simps del: for_else.simps)
    then have pre: "pre = []" by (cases pre) auto
    show ?thesis
      apply (rule exI [of _ loc], rule exI [of _ r], rule exI [of _ st1], rule exI [of _ "[]"],
          rule exI [of _ ok0])
      unfolding res
      using pre bd oki acc by (simp add: loop_state_simps)
  next
    case raise
    with u have res: "for_else body (i # is) loc = Inl (OverflowError, st1)"
      by (simp del: for_else.simps)
    with t Cons.prems have eq: "Send who method url args kwargs r # tail = pre @ e # post"
      by (simp add: loop_state_simps del: for_else.simps)
    have pre: "pre = []"
    proof (cases pre)
      case Nil
      then show ?thesis .
    next
      case (Cons p pre0)
      with eq have "e \<in> set tail" by auto
      with n \<open>is_send who e\<close> show ?thesis by blast
    qed
    show ?thesis
      apply (rule exI [of _ loc], rule exI [of _ r], rule exI [of _ st1], rule exI [of _ "[]"],
          rule exI [of _ ok0])
      unfolding res
      using pre bd raise by (simp add: loop_state_simps)
  next
    case go
    with u have res: "for_else body (i # is) loc = for_else body is (i, r, st1)"
      by (simp del: for_else.simps)
    from for_else_trace [OF body, of "is" "(i, r, st1)"] obtain evs' where
      t': "trace (loop_state (for_else body is (i, r, st1))) = trace st1 @ evs'" and
      hd': "is = [] \<longrightarrow> evs' = [] \<and> for_else body is (i, r, st1) = Inr (False, i, r, st1)"
         "is \<noteq> [] \<longrightarrow> (\<exists>r rest. evs' = Send who method url args kwargs r # rest)"
      by auto
    from t t' Cons.prems
    have eq: "Send who method url args kwargs r # tail @ evs' = pre @ e # post"
      unfolding res by simp
    show ?thesis
    proof (cases pre)
      case Nil
      show ?thesis
        apply (rule exI [of _ loc], rule exI [of _ r], rule exI [of _ st1], rule exI [of _ evs'],
            rule exI [of _ ok0])
        unfolding res
        using Nil bd go t' hd' by auto
    next
      case (Cons p pre0)
      with eq have p: "p = Send who method url args kwargs r" and
        eq0: "tail @ evs' = pre0 @ e # post" by simp_all
      from split_after_tail [OF eq0 n \<open>is_send who e\<close>] obtain pre1 where
        pre0: "pre0 = tail @ pre1" and evs': "evs' = pre1 @ e # post" by blast
      have cnt: "length (filter (is_send who) pre) = Suc (length (filter (is_send who) pre1))"
        using Cons p pre0 n by simp
      from t' evs' have "trace (loop_state (for_else body is (i, r, st1))) =
          trace (st_of (i, r, st1)) @ pre1 @ e # post" by simp
      from Cons.IH [OF this] obtain loc_i r_i st_i more ok where
        ih: "length (filter (is_send who) pre1) < length is"
          "body (is ! length (filter (is_send who) pre1)) loc_i =
             (if ok then Inr (expected r_i, (is ! length (filter (is_send who) pre1), r_i, st_i))
              else Inl (OverflowError, st_i))"
          "expected r_i \<longrightarrow> ok"
          "self (st_of loc_i) = self (st_of (i, r, st1))"
          "trace (st_of loc_i) = trace (st_of (i, r, st1)) @ pre1"
          "trace (loop_state (for_else body is (i, r, st1))) = trace st_i @ more"
          "\<not> ok \<longrightarrow> more = [] \<and> for_else body is (i, r, st1) = Inl (OverflowError, st_i)"
          "expected r_i \<longrightarrow> more = [] \<and>
              for_else body is (i, r, st1) =
                Inr (True, is ! length (filter (is_send who) pre1), r_i, st_i)"
          "ok \<and> \<not> expected r_i \<and> Suc (length (filter (is_send who) pre1)) = length is \<longrightarrow>
              more = [] \<and>
              for_else body is (i, r, st1) =
                Inr (False, is ! length (filter (is_send who) pre1), r_i, st_i)"
          "ok \<and> \<not> expected r_i \<and> Suc (length (filter (is_send who) pre1)) < length is \<longrightarrow>
              (\<exists>r' rest. more = Send who method url args kwargs r' # rest)"
        by blast
      show ?thesis
        apply (rule exI [of _ loc_i], rule exI [of _ r_i], rule exI [of _ st_i],
            rule exI [of _ more], rule exI [of _ ok])
        unfolding cnt res nth_Cons_Suc
        using ih s t Cons p pre0 by simp
    qed
  qed
qed

subsection \<open>The loop of \<open>auth_request\<close>\<close>

lemma auth_request_body_events:
  fixes super_request :: "('t, 'v) super_request" and loc :: "('t, 'v) locals"
  assumes "0 \<le> d"
  shows "\<exists>evs. trace (loop_state (auth_request_body super_request pf meth url args kwargs
                    expected d i loc)) = trace (st_of loc) @ evs \<and>
           (\<forall>x \<in> set evs. (\<exists>r. x = Send ByAuthRequest meth url args kwargs r) \<or> (\<exists>s. x = Sleep s))"
proof -
  obtain r t where rt: "super_request (transport (st_of loc)) meth url args kwargs = (r, t)"
    by (cases "super_request (transport (st_of loc)) meth url args kwargs")
  note b = auth_request_body_eq [where super_request = super_request and expected = expected,
      OF assms rt, of pf i]
  show ?thesis
    unfolding b
    by (cases "expected r"; cases "backoff pf r d") (auto simp: loop_state_def)
qed

lemma auth_request_eq:
  "auth_request super_request pf st meth url args expected max_tries delay_unexpected
     log_tag kwargs =
   (case for_else (auth_request_body super_request pf
               (if_none meth (self_method (self st)))
               (if_none url (self_url (self st))) args
               (dict_merge (self_kwargs (self st)) kwargs)
               (if_none expected (self_auth_expected (self st)))
               (max 0 (if_none delay_unexpected (self_auth_delay_unexpected (self st)))))
             [1..max 1 (if_none max_tries (self_auth_max_tries (self st)))] (0, Response, st) of
      Inl x \<Rightarrow> Inl x
    | Inr (b, tries, resp, st1) \<Rightarrow>
        Inr (resp, st1\<lparr>trace := trace st1 @
            (if b then []
             else [Warning ByAuthRequest tries (if_none meth (self_method (self st)))
                     (if_none url (self_url (self st))) args
                     (dict_merge (self_kwargs (self st)) kwargs) resp]) @
            (case log_tag of None \<Rightarrow> [] | Some tag \<Rightarrow> [Info ByAuthRequest tries tag])\<rparr>))"
  by (simp add: auth_request_def Let_def logger_warning_def logger_info_def
      split: option.splits sum.splits prod.splits)

lemma attempts_length: "length [1..max 1 n] = nat (max 1 n)"
  by simp

lemma attempts_nonempty: "[1..max 1 n] \<noteq> []"
  by simp

lemma attempts_nth: "k < length [1..max 1 n] \<Longrightarrow> [1..max 1 n] ! k = 1 + int k"
  by simp

lemma attempts_last: "last [1..max 1 n] = max 1 n"
  using attempts_nth [of "nat (max 1 n) - 1" n]
  by (simp add: last_conv_nth)

lemma final_state_simps:
  "final_state (Inl (e, st)) = st"
  "final_state (Inr (resp, st)) = st"
  by (simp_all add: final_state_def)

lemma log_events:
  "w \<noteq> w2 \<Longrightarrow>
   \<forall>x \<in> set ((if b then [] else [Warning w tries m u a k resp]) @
       (case log_tag of None \<Rightarrow> [] | Some tag \<Rightarrow> [Info w' tries' tag])).
     (\<forall>who. \<not> is_send who x) \<and> (\<forall>s. x \<noteq> Sleep s) \<and> \<not> is_warning w2 x"
  by (auto split: option.splits)

text \<open>
  The two ways a call of \<open>auth_request\<close> ends, with what holds of both: \<open>evs\<close> are the events of
  its loop, \<open>log\<close> the messages it logs after the loop.
\<close>

lemma auth_request_outcome:
  fixes super_request :: "('t, 'v) super_request" and st :: "('t, 'v) state"
  obtains evs log where
    "trace (loop_state (for_else (auth_request_body super_request pf
               (if_none meth (self_method (self st)))
               (if_none url (self_url (self st))) args
               (dict_merge (self_kwargs (self st)) kwargs)
               (if_none expected (self_auth_expected (self st)))
               (max 0 (if_none delay_unexpected (self_auth_delay_unexpected (self st)))))
             [1..max 1 (if_none max_tries (self_auth_max_tries (self st)))] (0, Response, st)))
       = trace st @ evs"
    "self (final_state (auth_request super_request pf st meth url args expected max_tries
        delay_unexpected log_tag kwargs)) = self st"
    "trace (final_state (auth_request super_request pf st meth url args expected max_tries
        delay_unexpected log_tag kwargs)) = trace st @ evs @ log"
    "\<exists>r rest. evs = Send ByAuthRequest (if_none meth (self_method (self st)))
               (if_none url (self_url (self st))) args
               (dict_merge (self_kwargs (self st)) kwargs) r # rest"
    "int (calls_by ByAuthRequest evs) \<le> max 1 (if_none max_tries (self_auth_max_tries (self st)))"
    "\<forall>x \<in> set evs. (\<exists>r. x = Send ByAuthRequest (if_none meth (self_method (self st)))
               (if_none url (self_url (self st))) args
               (dict_merge (self_kwargs (self st)) kwargs) r) \<or> (\<exists>s. x = Sleep s)"
    "\<forall>x \<in> set log. (\<forall>who. \<not> is_send who x) \<and> (\<forall>s. x \<noteq> Sleep s) \<and>
       \<not> is_warning ByRequest x"
    "(\<exists>s. for_else (auth_request_body super_request pf
               (if_none meth (self_method (self st)))
               (if_none url (self_url (self st))) args
               (dict_merge (self_kwargs (self st)) kwargs)
               (if_none expected (self_auth_expected (self st)))
               (max 0 (if_none delay_unexpected (self_auth_delay_unexpected (self st)))))
             [1..max 1 (if_none max_tries (self_auth_max_tries (self st)))] (0, Response, st)
            = Inl (OverflowError, s) \<and>
           auth_request super_request pf st meth url args expected max_tries
             delay_unexpected log_tag kwargs = Inl (OverflowError, s) \<and>
           log = []) \<or>
      (\<exists>b tries resp st1. for_else (auth_request_body super_request pf
               (if_none meth (self_method (self st)))
               (if_none url (self_url (self st))) args
               (dict_merge (self_kwargs (self st)) kwargs)
               (if_none expected (self_auth_expected (self st)))
               (max 0 (if_none delay_unexpected (self_auth_delay_unexpected (self st)))))
             [1..max 1 (if_none max_tries (self_auth_max_tries (self st)))] (0, Response, st)
            = Inr (b, tries, resp, st1) \<and>
           auth_request super_request pf st meth url args expected max_tries
             delay_unexpected log_tag kwargs =
             Inr (resp, st1\<lparr>trace := trace st @ evs @ log\<rparr>) \<and>
           log = (if b then []
             else [Warning ByAuthRequest tries (if_none meth (self_method (self st)))
                     (if_none url (self_url (self st))) args
                     (dict_merge (self_kwargs (self st)) kwargs) resp]) @
            (case log_tag of None \<Rightarrow> [] | Some tag \<Rightarrow> [Info ByAuthRequest tries tag]))"
proof -
  let ?d = "max 0 (if_none delay_unexpected (self_auth_delay_unexpected (self st)))"
  let ?M = "if_none meth (self_method (self st))"
  let ?U = "if_none url (self_url (self st))"
  let ?K = "dict_merge (self_kwargs (self st)) kwargs"
  let ?body = "auth_request_body super_request pf ?M ?U args ?K
               (if_none expected (self_auth_expected (self st))) ?d"
  let ?is = "[1..max 1 (if_none max_tries (self_auth_max_tries (self st)))]"
  let ?L = "for_else ?body ?is (0, Response, st)"
  let ?A = "auth_request super_request pf st meth url args expected max_tries
             delay_unexpected log_tag kwargs"
  let ?Q = "\<lambda>x. (\<exists>r. x = Send ByAuthRequest ?M ?U args ?K r) \<or> (\<exists>s. x = Sleep s)"
  have d: "0 \<le> ?d" by simp
  note rb = auth_request_body_retry [OF d, of ?M ?U args ?K
      "if_none expected (self_auth_expected (self st))" super_request pf]
  from for_else_self [OF rb, of ?is "(0, Response, st)"]
  have s: "self (loop_state ?L) = self st" by simp
  from for_else_trace [OF rb, of ?is "(0, Response, st)"] attempts_nonempty
  obtain evs where
    tr: "trace (loop_state ?L) = trace st @ evs" and
    hd: "\<exists>r rest. evs = Send ByAuthRequest ?M ?U args ?K r # rest" and
    len: "length (filter (is_send ByAuthRequest) evs) \<le> length ?is"
    by auto
  from len have cnt: "int (calls_by ByAuthRequest evs) \<le>
      max 1 (if_none max_tries (self_auth_max_tries (self st)))"
    unfolding calls_by_def by simp
  have "\<exists>evs. trace (loop_state ?L) = trace (st_of (0, Response, st)) @ evs \<and>
          (\<forall>x \<in> set evs. ?Q x)"
    by (rule for_else_all_events [where body = ?body], rule auth_request_body_events [OF d])
  with tr have q: "\<forall>x \<in> set evs. ?Q x" by auto
  show thesis
  proof (cases ?L)
    case (Inl p)
    obtain e s' where p: "p = (e, s')" by (cases p)
    from for_else_error [OF rb Inl [unfolded p]] have e: "e = OverflowError" .
    with Inl p have L: "?L = Inl (OverflowError, s')" by simp
    then have A: "?A = Inl (OverflowError, s')"
      unfolding auth_request_eq by simp
    from L s tr have s': "self s' = self st" "trace s' = trace st @ evs"
      by (simp_all add: loop_state_simps)
    have f2: "self (final_state ?A) = self st" by (simp add: A final_state_simps s')
    have f3: "trace (final_state ?A) = trace st @ evs @ []" by (simp add: A final_state_simps s')
    have f7: "\<forall>x \<in> set []. (\<forall>who. \<not> is_send who x) \<and> (\<forall>s. x \<noteq> Sleep s) \<and>
       \<not> is_warning ByRequest x" by simp
    have f8: "(\<exists>s. ?L = Inl (OverflowError, s) \<and> ?A = Inl (OverflowError, s) \<and> [] = []) \<or>
      (\<exists>b tries resp st1. ?L = Inr (b, tries, resp, st1) \<and>
           ?A = Inr (resp, st1\<lparr>trace := trace st @ evs @ []\<rparr>) \<and>
           [] = (if b then [] else [Warning ByAuthRequest tries ?M ?U args ?K resp]) @
            (case log_tag of None \<Rightarrow> [] | Some tag \<Rightarrow> [Info ByAuthRequest tries tag]))"
      using L A by blast
    from tr f2 f3 hd cnt q f7 f8 show thesis by (rule that)
  next
    case (Inr p)
    obtain b tries resp st1 where p: "p = (b, tries, resp, st1)" by (cases p)
    with Inr have L: "?L = Inr (b, tries, resp, st1)" by simp
    let ?log = "(if b then [] else [Warning ByAuthRequest tries ?M ?U args ?K resp]) @
            (case log_tag of None \<Rightarrow> [] | Some tag \<Rightarrow> [Info ByAuthRequest tries tag])"
    from L s tr have s1: "self st1 = self st" "trace st1 = trace st @ evs"
      by (simp_all add: loop_state_simps)
    from L s1 have A: "?A = Inr (resp, st1\<lparr>trace := trace st @ evs @ ?log\<rparr>)"
      unfolding auth_request_eq by simp
    have f2: "self (final_state ?A) = self st" by (simp add: A final_state_simps s1)
    have f3: "trace (final_state ?A) = trace st @ evs @ ?log" by (simp add: A final_state_simps s1)
    have f7: "\<forall>x \<in> set ?log. (\<forall>who. \<not> is_send who x) \<and> (\<forall>s. x \<noteq> Sleep s) \<and>
       \<not> is_warning ByRequest x"
      by (rule log_events) simp
    have "\<exists>b' tries' resp' st1'. ?L = Inr (b', tries', resp', st1') \<and>
           ?A = Inr (resp', st1'\<lparr>trace := trace st @ evs @ ?log\<rparr>) \<and>
           ?log = (if b' then [] else [Warning ByAuthRequest tries' ?M ?U args ?K resp']) @
            (case log_tag of None \<Rightarrow> [] | Some tag \<Rightarrow> [Info ByAuthRequest tries' tag])"
      by (intro exI [of _ b] exI [of _ tries] exI [of _ resp] exI [of _ st1] conjI L A refl)
    then have f8: "(\<exists>s. ?L = Inl (OverflowError, s) \<and> ?A = Inl (OverflowError, s) \<and> ?log = []) \<or>
      (\<exists>b' tries' resp' st1'. ?L = Inr (b', tries', resp', st1') \<and>
           ?A = Inr (resp', st1'\<lparr>trace := trace st @ evs @ ?log\<rparr>) \<and>
           ?log = (if b' then [] else [Warning ByAuthRequest tries' ?M ?U args ?K resp']) @
            (case log_tag of None \<Rightarrow> [] | Some tag \<Rightarrow> [Info ByAuthRequest tries' tag]))"
      by (rule disjI2)
    from tr f2 f3 hd cnt q f7 f8 show thesis by (rule that)
  qed
qed

text \<open>What \<open>request\<close> needs of a nested call of \<open>auth_request\<close>.\<close>

lemma auth_request_run:
  fixes super_request :: "('t, 'v) super_request" and st :: "('t, 'v) state"
  obtains evs where
    "self (final_state (auth_request super_request pf st meth url args expected max_tries
        delay_unexpected log_tag kwargs)) = self st"
    "trace (final_state (auth_request super_request pf st meth url args expected max_tries
        delay_unexpected log_tag kwargs)) = trace st @ evs"
    "\<forall>x \<in> set evs. \<not> is_send ByRequest x \<and> \<not> is_warning ByRequest x"
    "\<forall>e s. auth_request super_request pf st meth url args expected max_tries
        delay_unexpected log_tag kwargs = Inl (e, s) \<longrightarrow> e = OverflowError"
proof -
  let ?M = "if_none meth (self_method (self st))"
  let ?U = "if_none url (self_url (self st))"
  let ?K = "dict_merge (self_kwargs (self st)) kwargs"
  let ?A = "auth_request super_request pf st meth url args expected max_tries
             delay_unexpected log_tag kwargs"
  obtain evs log where
    "trace (loop_state (for_else (auth_request_body super_request pf ?M ?U args ?K
               (if_none expected (self_auth_expected (self st)))
               (max 0 (if_none delay_unexpected (self_auth_delay_unexpected (self st)))))
             [1..max 1 (if_none max_tries (self_auth_max_tries (self st)))] (0, Response, st)))
       = trace st @ evs" and
    s: "self (final_state ?A) = self st" and
    trA: "trace (final_state ?A) = trace st @ evs @ log" and
    "\<exists>r rest. evs = Send ByAuthRequest ?M ?U args ?K r # rest" and
    "int (calls_by ByAuthRequest evs) \<le> max 1 (if_none max_tries (self_auth_max_tries (self st)))" and
    q: "\<forall>x \<in> set evs. (\<exists>r. x = Send ByAuthRequest ?M ?U args ?K r) \<or> (\<exists>s. x = Sleep s)" and
    nolog: "\<forall>x \<in> set log. (\<forall>who. \<not> is_send who x) \<and> (\<forall>s. x \<noteq> Sleep s) \<and>
       \<not> is_warning ByRequest x" and
    out: "(\<exists>s. for_else (auth_request_body super_request pf ?M ?U args ?K
               (if_none expected (self_auth_expected (self st)))
               (max 0 (if_none delay_unexpected (self_auth_delay_unexpected (self st)))))
             [1..max 1 (if_none max_tries (self_auth_max_tries (self st)))] (0, Response, st)
            = Inl (OverflowError, s) \<and> ?A = Inl (OverflowError, s) \<and> log = []) \<or>
      (\<exists>b tries resp st1. for_else (auth_request_body super_request pf ?M ?U args ?K
               (if_none expected (self_auth_expected (self st)))
               (max 0 (if_none delay_unexpected (self_auth_delay_unexpected (self st)))))
             [1..max 1 (if_none max_tries (self_auth_max_tries (self st)))] (0, Response, st)
            = Inr (b, tries, resp, st1) \<and>
           ?A = Inr (resp, st1\<lparr>trace := trace st @ evs @ log\<rparr>) \<and>
           log = (if b then [] else [Warning ByAuthRequest tries ?M ?U args ?K resp]) @
            (case log_tag of None \<Rightarrow> [] | Some tag \<Rightarrow> [Info ByAuthRequest tries tag]))"
    by (rule auth_request_outcome)
  have ev: "\<forall>x \<in> set (evs @ log). \<not> is_send ByRequest x \<and> \<not> is_warning ByRequest x"
  proof
    fix x
    assume "x \<in> set (evs @ log)"
    then consider "x \<in> set evs" | "x \<in> set log" by auto
    then show "\<not> is_send ByRequest x \<and> \<not> is_warning ByRequest x"
    proof cases
      case 1
      with q have "(\<exists>r. x = Send ByAuthRequest ?M ?U args ?K r) \<or> (\<exists>s. x = Sleep s)" by blast
      then show ?thesis by auto
    next
      case 2
      with nolog show ?thesis by blast
    qed
  qed
  from out have err: "\<forall>e s. ?A = Inl (e, s) \<longrightarrow> e = OverflowError" by auto
  from trA have "trace (final_state ?A) = trace st @ (evs @ log)" by simp
  with s show thesis using ev err by (rule that)
qed

subsection \<open>Finding the attempt that made a call\<close>

lemma returned_final: "res = Inr (resp, st') \<Longrightarrow> res = Inr (resp, final_state res)"
  by (simp add: final_state_def)

lemma raised_final: "res = Inl (e, st') \<Longrightarrow> res = Inl (e, final_state res)"
  by (simp add: final_state_def)

lemma last_attempt: "(1 + int n = max 1 k) = (Suc n = length [1..max 1 k])"
  by auto

text \<open>
  What follows a call of the transport by the loop of \<open>auth_request\<close>, by the response: the
  end of the call when it is accepted; an \<open>OverflowError\<close> when the sleep is refused; else the
  sleep and then the next attempt or, after the last, the warning and the return.
\<close>

lemma auth_request_locate:
  fixes super_request :: "('t, 'v) super_request" and st :: "('t, 'v) state"
  assumes tr: "trace (final_state (auth_request super_request pf st meth url args expected
                  max_tries delay_unexpected log_tag kwargs)) =
               trace st @ pre @ Send ByAuthRequest m u a k r # post"
  shows "m = if_none meth (self_method (self st)) \<and>
         u = if_none url (self_url (self st)) \<and>
         a = args \<and>
         k = dict_merge (self_kwargs (self st)) kwargs \<and>
         1 + int (calls_by ByAuthRequest pre) \<le> max 1 (if_none max_tries (self_auth_max_tries (self st))) \<and>
         (\<forall>x \<in> set pre. \<forall>who. \<not> is_warning who x) \<and>
         (if if_none expected (self_auth_expected (self st)) r
          then auth_request super_request pf st meth url args expected
                 max_tries delay_unexpected log_tag kwargs =
               Inr (r, final_state (auth_request super_request pf st meth url args expected
                 max_tries delay_unexpected log_tag kwargs)) \<and>
               post = (case log_tag of None \<Rightarrow> []
                       | Some tag \<Rightarrow> [Info ByAuthRequest (1 + int (calls_by ByAuthRequest pre)) tag])
          else case backoff pf r
                      (max 0 (if_none delay_unexpected (self_auth_delay_unexpected (self st)))) of
                 None \<Rightarrow>
                   post = [] \<and>
                   auth_request super_request pf st meth url args expected
                     max_tries delay_unexpected log_tag kwargs =
                   Inl (OverflowError, final_state (auth_request super_request pf st meth url
                     args expected max_tries delay_unexpected log_tag kwargs))
               | Some x \<Rightarrow>
                   if 1 + int (calls_by ByAuthRequest pre) =
                        max 1 (if_none max_tries (self_auth_max_tries (self st)))
                   then post = Sleep x #
                          Warning ByAuthRequest
                            (max 1 (if_none max_tries (self_auth_max_tries (self st))))
                            (if_none meth (self_method (self st)))
                            (if_none url (self_url (self st))) args
                            (dict_merge (self_kwargs (self st)) kwargs) r #
                          (case log_tag of None \<Rightarrow> []
                           | Some tag \<Rightarrow>
                               [Info ByAuthRequest
                                  (max 1 (if_none max_tries (self_auth_max_tries (self st)))) tag]) \<and>
                        auth_request super_request pf st meth url args expected
                          max_tries delay_unexpected log_tag kwargs =
                        Inr (r, final_state (auth_request super_request pf st meth url args
                          expected max_tries delay_unexpected log_tag kwargs))
                   else \<exists>r' rest. post = Sleep x #
                          Send ByAuthRequest (if_none meth (self_method (self st)))
                            (if_none url (self_url (self st))) args
                            (dict_merge (self_kwargs (self st)) kwargs) r' # rest)"
proof -
  let ?d = "max 0 (if_none delay_unexpected (self_auth_delay_unexpected (self st)))"
  let ?M = "if_none meth (self_method (self st))"
  let ?U = "if_none url (self_url (self st))"
  let ?K = "dict_merge (self_kwargs (self st)) kwargs"
  let ?E = "if_none expected (self_auth_expected (self st))"
  let ?n = "if_none max_tries (self_auth_max_tries (self st))"
  let ?body = "auth_request_body super_request pf ?M ?U args ?K ?E ?d"
  let ?is = "[1..max 1 ?n]"
  let ?L = "for_else ?body ?is (0, Response, st)"
  let ?A = "auth_request super_request pf st meth url args expected max_tries
             delay_unexpected log_tag kwargs"
  let ?c = "length (filter (is_send ByAuthRequest) pre)"
  have d: "0 \<le> ?d" by simp
  note rb = auth_request_body_retry [OF d, of ?M ?U args ?K ?E super_request pf]
  obtain evs log where
    tr1: "trace (loop_state ?L) = trace st @ evs" and
    "self (final_state ?A) = self st" and
    trA: "trace (final_state ?A) = trace st @ evs @ log" and
    "\<exists>r rest. evs = Send ByAuthRequest ?M ?U args ?K r # rest" and
    "int (calls_by ByAuthRequest evs) \<le> max 1 ?n" and
    q: "\<forall>x \<in> set evs. (\<exists>r. x = Send ByAuthRequest ?M ?U args ?K r) \<or> (\<exists>s. x = Sleep s)" and
    nolog: "\<forall>x \<in> set log. (\<forall>who. \<not> is_send who x) \<and> (\<forall>s. x \<noteq> Sleep s) \<and>
       \<not> is_warning ByRequest x" and
    out: "(\<exists>s. ?L = Inl (OverflowError, s) \<and> ?A = Inl (OverflowError, s) \<and> log = []) \<or>
      (\<exists>b tries resp st1. ?L = Inr (b, tries, resp, st1) \<and>
           ?A = Inr (resp, st1\<lparr>trace := trace st @ evs @ log\<rparr>) \<and>
           log = (if b then [] else [Warning ByAuthRequest tries ?M ?U args ?K resp]) @
            (case log_tag of None \<Rightarrow> [] | Some tag \<Rightarrow> [Info ByAuthRequest tries tag]))"
    by (rule auth_request_outcome)
  from nolog have nosend: "\<forall>x \<in> set log. \<not> is_send ByAuthRequest x" by blast
  from tr trA have "evs @ log = pre @ Send ByAuthRequest m u a k r # post" by simp
  from split_before_rest [OF this nosend]
  obtain post1 where evs: "evs = pre @ Send ByAuthRequest m u a k r # post1" and
    post: "post = post1 @ log" by auto
  from tr1 evs have "trace (loop_state ?L) =
      trace (st_of (0, Response, st)) @ pre @ Send ByAuthRequest m u a k r # post1"
    by simp
  from for_else_locate [OF rb this is_send.simps(1) [THEN iffD2, OF refl]]
  obtain loc_i r_i st_i more ok where
    n: "?c < length ?is" and
    bd: "?body (?is ! ?c) loc_i =
           (if ok then Inr (?E r_i, (?is ! ?c, r_i, st_i)) else Inl (OverflowError, st_i))" and
    tri0: "trace (st_of loc_i) = trace (st_of (0, Response, st)) @ pre" and
    more: "trace (loop_state ?L) = trace st_i @ more" and
    raised: "\<not> ok \<longrightarrow> more = [] \<and> ?L = Inl (OverflowError, st_i)" and
    accepted: "?E r_i \<longrightarrow> more = [] \<and> ?L = Inr (True, ?is ! ?c, r_i, st_i)" and
    final: "ok \<and> \<not> ?E r_i \<and> Suc ?c = length ?is \<longrightarrow>
              more = [] \<and> ?L = Inr (False, ?is ! ?c, r_i, st_i)" and
    nxt: "ok \<and> \<not> ?E r_i \<and> Suc ?c < length ?is \<longrightarrow>
              (\<exists>r' rest. more = Send ByAuthRequest ?M ?U args ?K r' # rest)"
    by blast
  from tri0 have tri: "trace (st_of loc_i) = trace st @ pre" by simp
  obtain r' t' where rt: "super_request (transport (st_of loc_i)) ?M ?U args ?K = (r', t')"
    by (cases "super_request (transport (st_of loc_i)) ?M ?U args ?K")
  note eq = auth_request_body_eq [where super_request = super_request and expected = ?E,
      OF d rt, of pf "?is ! ?c"]
  let ?sent = "(st_of loc_i)\<lparr>transport := t',
             trace := trace (st_of loc_i) @ [Send ByAuthRequest ?M ?U args ?K r']\<rparr>"
  from n have cnt: "1 + int (calls_by ByAuthRequest pre) \<le> max 1 ?n"
    unfolding calls_by_def by simp
  from n have nth: "?is ! ?c = 1 + int (calls_by ByAuthRequest pre)"
    unfolding calls_by_def by simp
  have lastc: "(1 + int (calls_by ByAuthRequest pre) = max 1 ?n) = (Suc ?c = length ?is)"
    unfolding calls_by_def by (rule last_attempt)
  have nw: "\<forall>x \<in> set pre. \<forall>who. \<not> is_warning who x"
  proof
    fix x
    assume "x \<in> set pre"
    with evs have "x \<in> set evs" by simp
    with q have "(\<exists>r. x = Send ByAuthRequest ?M ?U args ?K r) \<or> (\<exists>s. x = Sleep s)" by blast
    then show "\<forall>who. \<not> is_warning who x" by auto
  qed
  let ?info = "\<lambda>tries. (case log_tag of None \<Rightarrow> []
                       | Some tag \<Rightarrow> [Info ByAuthRequest tries tag])"
  let ?tail = "if ?E r
          then ?A = Inr (r, final_state ?A) \<and>
               post = ?info (1 + int (calls_by ByAuthRequest pre))
          else case backoff pf r ?d of
                 None \<Rightarrow> post = [] \<and> ?A = Inl (OverflowError, final_state ?A)
               | Some x \<Rightarrow>
                   if 1 + int (calls_by ByAuthRequest pre) = max 1 ?n
                   then post = Sleep x #
                          Warning ByAuthRequest (max 1 ?n) ?M ?U args ?K r # ?info (max 1 ?n) \<and>
                        ?A = Inr (r, final_state ?A)
                   else \<exists>r' rest. post = Sleep x # Send ByAuthRequest ?M ?U args ?K r' # rest"
  consider (acc) "?E r'" | (raise) "\<not> ?E r'" "backoff pf r' ?d = None"
    | (slept) x where "\<not> ?E r'" "backoff pf r' ?d = Some x"
    by (cases "backoff pf r' ?d") auto
  then have "m = ?M \<and> u = ?U \<and> a = args \<and> k = ?K \<and> ?tail"
  proof cases
    case acc
    from bd [unfolded eq] acc have ri: "r_i = r'" and sti: "st_i = ?sent"
      by (auto split: if_splits)
    from more sti tri tr1 evs
    have cmp: "Send ByAuthRequest m u a k r # post1 = Send ByAuthRequest ?M ?U args ?K r' # more"
      by simp
    then have id: "m = ?M" "u = ?U" "a = args" "k = ?K" and r: "r' = r" and p1: "post1 = more"
      by simp_all
    from acc r have c: "?E r" by simp
    from accepted acc ri r have m0: "more = []" and L: "?L = Inr (True, ?is ! ?c, r, st_i)"
      by simp_all
    from out L obtain st1 where
      A: "?A = Inr (r, st1\<lparr>trace := trace st @ evs @ log\<rparr>)" and
      log: "log = ?info (?is ! ?c)"
      by auto
    from A have res: "?A = Inr (r, final_state ?A)" by (rule returned_final)
    from post p1 m0 log have pst: "post = ?info (1 + int (calls_by ByAuthRequest pre))"
      unfolding nth by simp
    have t: ?tail
      unfolding if_P [OF c] by (intro conjI res pst)
    from id t show ?thesis by (intro conjI)
  next
    case raise
    from bd [unfolded eq] raise have nok: "\<not> ok" and sti: "st_i = ?sent"
      by (auto split: if_splits)
    from more sti tri tr1 evs
    have cmp: "Send ByAuthRequest m u a k r # post1 = Send ByAuthRequest ?M ?U args ?K r' # more"
      by simp
    then have id: "m = ?M" "u = ?U" "a = args" "k = ?K" and r: "r' = r" and p1: "post1 = more"
      by simp_all
    from raise r have c: "\<not> ?E r" and c2: "backoff pf r ?d = None" by simp_all
    from raised nok have m0: "more = []" and L: "?L = Inl (OverflowError, st_i)" by simp_all
    from out L have A: "?A = Inl (OverflowError, st_i)" and log: "log = []" by auto
    from A have res: "?A = Inl (OverflowError, final_state ?A)" by (rule raised_final)
    from post p1 m0 log have pst: "post = []" by simp
    have t: ?tail
      unfolding if_not_P [OF c] c2 option.case by (intro conjI res pst)
    from id t show ?thesis by (intro conjI)
  next
    case slept
    from bd [unfolded eq] slept have ok: "ok" and ri: "r_i = r'" and
      sti: "st_i = ?sent\<lparr>trace := trace ?sent @ [Sleep x]\<rparr>"
      by (auto split: if_splits)
    from more sti tri tr1 evs
    have cmp: "Send ByAuthRequest m u a k r # post1 =
        Send ByAuthRequest ?M ?U args ?K r' # Sleep x # more"
      by simp
    then have id: "m = ?M" "u = ?U" "a = args" "k = ?K" and r: "r' = r" and
      p1: "post1 = Sleep x # more"
      by simp_all
    from slept r have c: "\<not> ?E r" and c2: "backoff pf r ?d = Some x" by simp_all
    show ?thesis
    proof (cases "Suc ?c = length ?is")
      case True
      with final ok ri r c have m0: "more = []" and L: "?L = Inr (False, ?is ! ?c, r, st_i)"
        by simp_all
      from True lastc have e: "1 + int (calls_by ByAuthRequest pre) = max 1 ?n" by blast
      with nth have tries: "?is ! ?c = max 1 ?n" by simp
      from out L obtain st1 where
        A: "?A = Inr (r, st1\<lparr>trace := trace st @ evs @ log\<rparr>)" and
        log: "log = [Warning ByAuthRequest (?is ! ?c) ?M ?U args ?K r] @ ?info (?is ! ?c)"
        by auto
      from A have res: "?A = Inr (r, final_state ?A)" by (rule returned_final)
      from post p1 m0 log have pst: "post = Sleep x #
          Warning ByAuthRequest (max 1 ?n) ?M ?U args ?K r # ?info (max 1 ?n)"
        unfolding tries by simp
      have t: ?tail
        unfolding if_not_P [OF c] c2 option.case if_P [OF e] by (intro conjI res pst)
      from id t show ?thesis by (intro conjI)
    next
      case False
      with n have "Suc ?c < length ?is" by simp
      with nxt ok ri r c obtain r'' rest where
        "more = Send ByAuthRequest ?M ?U args ?K r'' # rest" by auto
      with post p1 have pst: "\<exists>r' rest. post = Sleep x # Send ByAuthRequest ?M ?U args ?K r' # rest"
        by simp
      from False lastc have ne: "1 + int (calls_by ByAuthRequest pre) \<noteq> max 1 ?n" by blast
      have t: ?tail
        unfolding if_not_P [OF c] c2 option.case if_not_P [OF ne] by (rule pst)
      from id t show ?thesis by (intro conjI)
    qed
  qed
  with cnt nw show ?thesis by blast
qed

subsection \<open>The loop of \<open>request\<close>\<close>

lemma request_body_eq:
  assumes "0 \<le> d" and "super_request (transport (st_of loc)) meth url args kwargs = (r, t)"
  shows "request_body super_request pf meth url args kwargs expected d i loc =
     (if expected r
      then Inr (True, (i, r, (st_of loc)\<lparr>transport := t,
             trace := trace (st_of loc) @ [Send ByRequest meth url args kwargs r]\<rparr>))
      else if status_code r = Some 401
      then (case auth_request super_request pf
                   ((st_of loc)\<lparr>transport := t,
                      trace := trace (st_of loc) @ [Send ByRequest meth url args kwargs r]\<rparr>)
                   None None [] None None None None [] of
              Inl e \<Rightarrow> Inl e
            | Inr (ar, sta) \<Rightarrow>
                (case fixed_sleep d of
                   None \<Rightarrow> Inl (OverflowError, sta)
                 | Some x \<Rightarrow> Inr (False, (i, r, sta\<lparr>trace := trace sta @ [Sleep x]\<rparr>))))
      else case backoff pf r d of
             None \<Rightarrow> Inl (OverflowError, (st_of loc)\<lparr>transport := t,
               trace := trace (st_of loc) @ [Send ByRequest meth url args kwargs r]\<rparr>)
           | Some x \<Rightarrow> Inr (False, (i, r, (st_of loc)\<lparr>transport := t,
               trace := trace (st_of loc) @
                 [Send ByRequest meth url args kwargs r, Sleep x]\<rparr>)))"
  using assms
  by (simp add: request_body_def call_super_request_def honor_retry_after_eq
      time_sleep_fixed backoff_def split: option.splits sum.splits prod.splits)

lemma fixed_sleep_Some: "fixed_sleep d = Some x \<Longrightarrow> x = d \<and> d < sleep_limit"
  by (simp add: fixed_sleep_def split: if_splits)

lemma fixed_sleep_None: "(fixed_sleep d = None) = (sleep_limit \<le> d)"
  by (simp add: fixed_sleep_def)

lemma request_body_cases:
  fixes super_request :: "('t, 'v) super_request" and loc :: "('t, 'v) locals"
  assumes "0 \<le> d"
  shows "\<exists>r st1 tail ok.
    request_body super_request pf meth url args kwargs expected d i loc =
      (if ok then Inr (expected r, (i, r, st1)) else Inl (OverflowError, st1)) \<and>
    (expected r \<longrightarrow> ok) \<and>
    self st1 = self (st_of loc) \<and>
    trace st1 = trace (st_of loc) @ Send ByRequest meth url args kwargs r # tail \<and>
    (\<forall>x \<in> set tail. \<not> is_send ByRequest x \<and> \<not> is_warning ByRequest x) \<and>
    (expected r \<longrightarrow> tail = [])"
proof -
  let ?body = "request_body super_request pf meth url args kwargs expected d"
  obtain r t where rt: "super_request (transport (st_of loc)) meth url args kwargs = (r, t)"
    by (cases "super_request (transport (st_of loc)) meth url args kwargs")
  let ?sent = "(st_of loc)\<lparr>transport := t,
        trace := trace (st_of loc) @ [Send ByRequest meth url args kwargs r]\<rparr>"
  note b = request_body_eq [where super_request = super_request and expected = expected,
      OF assms rt, of pf i]
  let ?goal = "\<lambda>st1 tail ok.
    ?body i loc = (if ok then Inr (expected r, (i, r, st1)) else Inl (OverflowError, st1)) \<and>
    (expected r \<longrightarrow> ok) \<and>
    self st1 = self (st_of loc) \<and>
    trace st1 = trace (st_of loc) @ Send ByRequest meth url args kwargs r # tail \<and>
    (\<forall>x \<in> set tail. \<not> is_send ByRequest x \<and> \<not> is_warning ByRequest x) \<and>
    (expected r \<longrightarrow> tail = [])"
  let ?A = "auth_request super_request pf ?sent None None [] None None None None []"
  consider (acc) "expected r"
    | (auth) "\<not> expected r" "status_code r = Some 401"
    | (raise) "\<not> expected r" "status_code r \<noteq> Some 401" "backoff pf r d = None"
    | (slept) x where "\<not> expected r" "status_code r \<noteq> Some 401" "backoff pf r d = Some x"
    by (cases "backoff pf r d") auto
  then have "\<exists>st1 tail ok. ?goal st1 tail ok"
  proof cases
    case acc
    then have "?goal ?sent [] True" using b by simp
    then show ?thesis by blast
  next
    case raise
    then have "?goal ?sent [] False" using b by simp
    then show ?thesis by blast
  next
    case slept
    then have "?goal (?sent\<lparr>trace := trace ?sent @ [Sleep x]\<rparr>) [Sleep x] True" using b by simp
    then show ?thesis by blast
  next
    case auth
    obtain aev where
      sa: "self (final_state ?A) = self ?sent" and
      ta: "trace (final_state ?A) = trace ?sent @ aev" and
      qa: "\<forall>x \<in> set aev. \<not> is_send ByRequest x \<and> \<not> is_warning ByRequest x" and
      ea: "\<forall>e s. ?A = Inl (e, s) \<longrightarrow> e = OverflowError"
      by (rule auth_request_run)
    show ?thesis
    proof (cases ?A)
      case (Inl p)
      obtain e s where p: "p = (e, s)" by (cases p)
      with Inl ea have A: "?A = Inl (OverflowError, s)" by simp
      with sa ta have "self s = self ?sent" "trace s = trace ?sent @ aev"
        by (simp_all add: final_state_simps)
      with auth qa A have "?goal s aev False" using b by simp
      then show ?thesis by blast
    next
      case (Inr p)
      obtain ar sta where p: "p = (ar, sta)" by (cases p)
      with Inr have A: "?A = Inr (ar, sta)" by simp
      with sa ta have s: "self sta = self ?sent" "trace sta = trace ?sent @ aev"
        by (simp_all add: final_state_simps)
      show ?thesis
      proof (cases "fixed_sleep d")
        case None
        with auth qa A s have "?goal sta aev False" using b by simp
        then show ?thesis by blast
      next
        case (Some x)
        with auth qa A s have "?goal (sta\<lparr>trace := trace sta @ [Sleep x]\<rparr>) (aev @ [Sleep x]) True"
          using b by simp
        then show ?thesis by blast
      qed
    qed
  qed
  then show ?thesis ..
qed

lemma request_body_retry:
  fixes super_request :: "('t, 'v) super_request"
  assumes "0 \<le> d"
  shows "retry_body ByRequest meth url args kwargs expected
           (request_body super_request pf meth url args kwargs expected d)"
proof (rule retry_bodyI)
  fix i and loc :: "('t, 'v) locals"
  from request_body_cases [OF assms, of super_request pf meth url args kwargs expected i loc]
  obtain r st1 tail ok where
    "request_body super_request pf meth url args kwargs expected d i loc =
      (if ok then Inr (expected r, (i, r, st1)) else Inl (OverflowError, st1))"
    "expected r \<longrightarrow> ok"
    "self st1 = self (st_of loc)"
    "trace st1 = trace (st_of loc) @ Send ByRequest meth url args kwargs r # tail"
    "\<forall>x \<in> set tail. \<not> is_send ByRequest x \<and> \<not> is_warning ByRequest x"
    "expected r \<longrightarrow> tail = []"
    by (elim exE conjE)
  then show "\<exists>r st1 tail ok.
    request_body super_request pf meth url args kwargs expected d i loc =
      (if ok then Inr (expected r, (i, r, st1)) else Inl (OverflowError, st1)) \<and>
    (expected r \<longrightarrow> ok) \<and>
    self st1 = self (st_of loc) \<and>
    trace st1 = trace (st_of loc) @ Send ByRequest meth url args kwargs r # tail \<and>
    (\<forall>x \<in> set tail. \<not> is_send ByRequest x) \<and>
    (expected r \<longrightarrow> tail = [])"
    by (intro exI [of _ r] exI [of _ st1] exI [of _ tail] exI [of _ ok]) simp
qed

lemma request_body_events:
  fixes super_request :: "('t, 'v) super_request" and loc :: "('t, 'v) locals"
  assumes "0 \<le> d"
  shows "\<exists>evs. trace (loop_state (request_body super_request pf meth url args kwargs
                    expected d i loc)) = trace (st_of loc) @ evs \<and>
           (\<forall>x \<in> set evs. (is_send ByRequest x \<longrightarrow> (\<exists>r. x = Send ByRequest meth url args kwargs r)) \<and>
               \<not> is_warning ByRequest x)"
proof -
  from request_body_cases [OF assms, of super_request pf meth url args kwargs expected i loc]
  obtain r st1 tail ok where
    b: "request_body super_request pf meth url args kwargs expected d i loc =
      (if ok then Inr (expected r, (i, r, st1)) else Inl (OverflowError, st1))" and
    t: "trace st1 = trace (st_of loc) @ Send ByRequest meth url args kwargs r # tail" and
    q: "\<forall>x \<in> set tail. \<not> is_send ByRequest x \<and> \<not> is_warning ByRequest x"
    by (elim exE conjE)
  from b have "loop_state (request_body super_request pf meth url args kwargs expected d i loc)
      = st1"
    by (simp add: loop_state_def)
  with t q show ?thesis
    by (intro exI [of _ "Send ByRequest meth url args kwargs r # tail"]) auto
qed

lemma request_eq:
  "request super_request pf st meth url args expected max_tries delay_unexpected
     log_tag kwargs =
   (case for_else (request_body super_request pf meth url args kwargs
               (if_none expected (self_expected (self st)))
               (max 0 (if_none delay_unexpected (self_delay_unexpected (self st)))))
             [1..max 1 (if_none max_tries (self_max_tries (self st)))] (0, Response, st) of
      Inl x \<Rightarrow> Inl x
    | Inr (b, tries, resp, st1) \<Rightarrow>
        Inr (resp, st1\<lparr>trace := trace st1 @
            (if b then [] else [Warning ByRequest tries meth url args kwargs resp]) @
            (case log_tag of None \<Rightarrow> [] | Some tag \<Rightarrow> [Info ByRequest tries tag])\<rparr>))"
  by (simp add: request_def Let_def logger_warning_def logger_info_def
      split: option.splits sum.splits prod.splits)

text \<open>
  The two ways a call of \<open>request\<close> ends, with what holds of both: \<open>evs\<close> are the events of its
  loop, those of the nested calls of \<open>auth_request\<close> among them, \<open>log\<close> the messages it logs
  after the loop.
\<close>

lemma request_outcome:
  fixes super_request :: "('t, 'v) super_request" and st :: "('t, 'v) state"
  obtains evs log where
    "trace (loop_state (for_else (request_body super_request pf meth url args kwargs
               (if_none expected (self_expected (self st)))
               (max 0 (if_none delay_unexpected (self_delay_unexpected (self st)))))
             [1..max 1 (if_none max_tries (self_max_tries (self st)))] (0, Response, st)))
       = trace st @ evs"
    "self (final_state (request super_request pf st meth url args expected max_tries
        delay_unexpected log_tag kwargs)) = self st"
    "trace (final_state (request super_request pf st meth url args expected max_tries
        delay_unexpected log_tag kwargs)) = trace st @ evs @ log"
    "\<exists>r rest. evs = Send ByRequest meth url args kwargs r # rest"
    "int (calls_by ByRequest evs) \<le> max 1 (if_none max_tries (self_max_tries (self st)))"
    "\<forall>x \<in> set evs. (is_send ByRequest x \<longrightarrow> (\<exists>r. x = Send ByRequest meth url args kwargs r)) \<and>
         \<not> is_warning ByRequest x"
    "\<forall>x \<in> set log. (\<forall>who. \<not> is_send who x) \<and> (\<forall>s. x \<noteq> Sleep s) \<and>
       \<not> is_warning ByAuthRequest x"
    "(\<exists>s. for_else (request_body super_request pf meth url args kwargs
               (if_none expected (self_expected (self st)))
               (max 0 (if_none delay_unexpected (self_delay_unexpected (self st)))))
             [1..max 1 (if_none max_tries (self_max_tries (self st)))] (0, Response, st)
            = Inl (OverflowError, s) \<and>
           request super_request pf st meth url args expected max_tries
             delay_unexpected log_tag kwargs = Inl (OverflowError, s) \<and>
           log = []) \<or>
      (\<exists>b tries resp st1. for_else (request_body super_request pf meth url args kwargs
               (if_none expected (self_expected (self st)))
               (max 0 (if_none delay_unexpected (self_delay_unexpected (self st)))))
             [1..max 1 (if_none max_tries (self_max_tries (self st)))] (0, Response, st)
            = Inr (b, tries, resp, st1) \<and>
           request super_request pf st meth url args expected max_tries
             delay_unexpected log_tag kwargs =
             Inr (resp, st1\<lparr>trace := trace st @ evs @ log\<rparr>) \<and>
           log = (if b then [] else [Warning ByRequest tries meth url args kwargs resp]) @
            (case log_tag of None \<Rightarrow> [] | Some tag \<Rightarrow> [Info ByRequest tries tag]))"
proof -
  let ?d = "max 0 (if_none delay_unexpected (self_delay_unexpected (self st)))"
  let ?E = "if_none expected (self_expected (self st))"
  let ?body = "request_body super_request pf meth url args kwargs ?E ?d"
  let ?is = "[1..max 1 (if_none max_tries (self_max_tries (self st)))]"
  let ?L = "for_else ?body ?is (0, Response, st)"
  let ?A = "request super_request pf st meth url args expected max_tries
             delay_unexpected log_tag kwargs"
  let ?Q = "\<lambda>x. (is_send ByRequest x \<longrightarrow> (\<exists>r. x = Send ByRequest meth url args kwargs r)) \<and>
         \<not> is_warning ByRequest x"
  have d: "0 \<le> ?d" by simp
  note rb = request_body_retry [OF d, of meth url args kwargs ?E super_request pf]
  from for_else_self [OF rb, of ?is "(0, Response, st)"]
  have s: "self (loop_state ?L) = self st" by simp
  from for_else_trace [OF rb, of ?is "(0, Response, st)"] attempts_nonempty
  obtain evs where
    tr: "trace (loop_state ?L) = trace st @ evs" and
    hd: "\<exists>r rest. evs = Send ByRequest meth url args kwargs r # rest" and
    len: "length (filter (is_send ByRequest) evs) \<le> length ?is"
    by auto
  from len have cnt: "int (calls_by ByRequest evs) \<le>
      max 1 (if_none max_tries (self_max_tries (self st)))"
    unfolding calls_by_def by simp
  have "\<exists>evs. trace (loop_state ?L) = trace (st_of (0, Response, st)) @ evs \<and>
          (\<forall>x \<in> set evs. ?Q x)"
    by (rule for_else_all_events [where body = ?body], rule request_body_events [OF d])
  with tr have q: "\<forall>x \<in> set evs. ?Q x" by auto
  show thesis
  proof (cases ?L)
    case (Inl p)
    obtain e s' where p: "p = (e, s')" by (cases p)
    from for_else_error [OF rb Inl [unfolded p]] have e: "e = OverflowError" .
    with Inl p have L: "?L = Inl (OverflowError, s')" by simp
    then have A: "?A = Inl (OverflowError, s')"
      unfolding request_eq by simp
    from L s tr have s': "self s' = self st" "trace s' = trace st @ evs"
      by (simp_all add: loop_state_simps)
    have f2: "self (final_state ?A) = self st" by (simp add: A final_state_simps s')
    have f3: "trace (final_state ?A) = trace st @ evs @ []" by (simp add: A final_state_simps s')
    have f7: "\<forall>x \<in> set []. (\<forall>who. \<not> is_send who x) \<and> (\<forall>s. x \<noteq> Sleep s) \<and>
       \<not> is_warning ByAuthRequest x" by simp
    have f8: "(\<exists>s. ?L = Inl (OverflowError, s) \<and> ?A = Inl (OverflowError, s) \<and> [] = []) \<or>
      (\<exists>b tries resp st1. ?L = Inr (b, tries, resp, st1) \<and>
           ?A = Inr (resp, st1\<lparr>trace := trace st @ evs @ []\<rparr>) \<and>
           [] = (if b then [] else [Warning ByRequest tries meth url args kwargs resp]) @
            (case log_tag of None \<Rightarrow> [] | Some tag \<Rightarrow> [Info ByRequest tries tag]))"
      using L A by blast
    from tr f2 f3 hd cnt q f7 f8 show thesis by (rule that)
  next
    case (Inr p)
    obtain b tries resp st1 where p: "p = (b, tries, resp, st1)" by (cases p)
    with Inr have L: "?L = Inr (b, tries, resp, st1)" by simp
    let ?log = "(if b then [] else [Warning ByRequest tries meth url args kwargs resp]) @
            (case log_tag of None \<Rightarrow> [] | Some tag \<Rightarrow> [Info ByRequest tries tag])"
    from L s tr have s1: "self st1 = self st" "trace st1 = trace st @ evs"
      by (simp_all add: loop_state_simps)
    from L s1 have A: "?A = Inr (resp, st1\<lparr>trace := trace st @ evs @ ?log\<rparr>)"
      unfolding request_eq by simp
    have f2: "self (final_state ?A) = self st" by (simp add: A final_state_simps s1)
    have f3: "trace (final_state ?A) = trace st @ evs @ ?log" by (simp add: A final_state_simps s1)
    have f7: "\<forall>x \<in> set ?log. (\<forall>who. \<not> is_send who x) \<and> (\<forall>s. x \<noteq> Sleep s) \<and>
       \<not> is_warning ByAuthRequest x"
      by (rule log_events) simp
    have "\<exists>b' tries' resp' st1'. ?L = Inr (b', tries', resp', st1') \<and>
           ?A = Inr (resp', st1'\<lparr>trace := trace st @ evs @ ?log\<rparr>) \<and>
           ?log = (if b' then [] else [Warning ByRequest tries' meth url args kwargs resp']) @
            (case log_tag of None \<Rightarrow> [] | Some tag \<Rightarrow> [Info ByRequest tries' tag])"
      by (intro exI [of _ b] exI [of _ tries] exI [of _ resp] exI [of _ st1] conjI L A refl)
    then have f8: "(\<exists>s. ?L = Inl (OverflowError, s) \<and> ?A = Inl (OverflowError, s) \<and> ?log = []) \<or>
      (\<exists>b' tries' resp' st1'. ?L = Inr (b', tries', resp', st1') \<and>
           ?A = Inr (resp', st1'\<lparr>trace := trace st @ evs @ ?log\<rparr>) \<and>
           ?log = (if b' then [] else [Warning ByRequest tries' meth url args kwargs resp']) @
            (case log_tag of None \<Rightarrow> [] | Some tag \<Rightarrow> [Info ByRequest tries' tag]))"
      by (rule disjI2)
    from tr f2 f3 hd cnt q f7 f8 show thesis by (rule that)
  qed
qed

lemma state_update_eq:
  fixes s1 s2 :: "('t, 'v) state"
  assumes "self s1 = self s2"
  shows "s1\<lparr>transport := t, trace := tr\<rparr> = s2\<lparr>transport := t, trace := tr\<rparr>"
  using assms by (cases s1, cases s2) simp

text \<open>
  What follows a call of the transport by the loop of \<open>request\<close>, by the response. After a
  rejected 401 response come the events \<open>aev\<close> of one call of \<open>auth_request\<close> with no argument,
  started in the state the call of the transport left; an exception of that call, or of the
  sleep after it, ends the call of \<open>request\<close>.
\<close>

lemma request_locate:
  fixes super_request :: "('t, 'v) super_request" and st :: "('t, 'v) state"
  assumes tr: "trace (final_state (request super_request pf st meth url args expected
                  max_tries delay_unexpected log_tag kwargs)) =
               trace st @ pre @ Send ByRequest m u a k r # post"
  shows "m = meth \<and> u = url \<and> a = args \<and> k = kwargs \<and>
         1 + int (calls_by ByRequest pre) \<le> max 1 (if_none max_tries (self_max_tries (self st))) \<and>
         (\<forall>x \<in> set pre. \<not> is_warning ByRequest x) \<and>
         (if if_none expected (self_expected (self st)) r
          then request super_request pf st meth url args expected
                 max_tries delay_unexpected log_tag kwargs =
               Inr (r, final_state (request super_request pf st meth url args expected
                 max_tries delay_unexpected log_tag kwargs)) \<and>
               post = (case log_tag of None \<Rightarrow> []
                       | Some tag \<Rightarrow> [Info ByRequest (1 + int (calls_by ByRequest pre)) tag])
          else if status_code r = Some 401
          then \<exists>t aev.
                 trace (final_state (auth_request super_request pf
                   (st\<lparr>transport := t, trace := trace st @ pre @ [Send ByRequest m u a k r]\<rparr>)
                   None None [] None None None None [])) =
                 trace st @ pre @ Send ByRequest m u a k r # aev \<and>
                 (\<forall>x \<in> set aev. \<not> is_send ByRequest x) \<and>
                 (\<forall>e sta.
                    auth_request super_request pf
                      (st\<lparr>transport := t, trace := trace st @ pre @ [Send ByRequest m u a k r]\<rparr>)
                      None None [] None None None None [] = Inl (e, sta) \<longrightarrow>
                    post = aev \<and>
                    request super_request pf st meth url args expected
                      max_tries delay_unexpected log_tag kwargs = Inl (e, sta)) \<and>
                 (\<forall>ar sta.
                    auth_request super_request pf
                      (st\<lparr>transport := t, trace := trace st @ pre @ [Send ByRequest m u a k r]\<rparr>)
                      None None [] None None None None [] = Inr (ar, sta) \<longrightarrow>
                    (if sleep_limit \<le> max 0 (if_none delay_unexpected (self_delay_unexpected (self st)))
                     then post = aev \<and>
                          request super_request pf st meth url args expected
                            max_tries delay_unexpected log_tag kwargs = Inl (OverflowError, sta)
                     else if 1 + int (calls_by ByRequest pre) =
                               max 1 (if_none max_tries (self_max_tries (self st)))
                     then post = aev @
                            Sleep (max 0 (if_none delay_unexpected (self_delay_unexpected (self st)))) #
                            Warning ByRequest (max 1 (if_none max_tries (self_max_tries (self st))))
                              meth url args kwargs r #
                            (case log_tag of None \<Rightarrow> []
                             | Some tag \<Rightarrow>
                                 [Info ByRequest
                                    (max 1 (if_none max_tries (self_max_tries (self st)))) tag]) \<and>
                          request super_request pf st meth url args expected
                            max_tries delay_unexpected log_tag kwargs =
                          Inr (r, final_state (request super_request pf st meth url args expected
                            max_tries delay_unexpected log_tag kwargs))
                     else \<exists>r' rest. post = aev @
                            Sleep (max 0 (if_none delay_unexpected (self_delay_unexpected (self st)))) #
                            Send ByRequest meth url args kwargs r' # rest))
          else case backoff pf r
                      (max 0 (if_none delay_unexpected (self_delay_unexpected (self st)))) of
                 None \<Rightarrow>
                   post = [] \<and>
                   request super_request pf st meth url args expected
                     max_tries delay_unexpected log_tag kwargs =
                   Inl (OverflowError, final_state (request super_request pf st meth url
                     args expected max_tries delay_unexpected log_tag kwargs))
               | Some x \<Rightarrow>
                   if 1 + int (calls_by ByRequest pre) =
                        max 1 (if_none max_tries (self_max_tries (self st)))
                   then post = Sleep x #
                          Warning ByRequest (max 1 (if_none max_tries (self_max_tries (self st))))
                            meth url args kwargs r #
                          (case log_tag of None \<Rightarrow> []
                           | Some tag \<Rightarrow>
                               [Info ByRequest
                                  (max 1 (if_none max_tries (self_max_tries (self st)))) tag]) \<and>
                        request super_request pf st meth url args expected
                          max_tries delay_unexpected log_tag kwargs =
                        Inr (r, final_state (request super_request pf st meth url args
                          expected max_tries delay_unexpected log_tag kwargs))
                   else \<exists>r' rest. post = Sleep x # Send ByRequest meth url args kwargs r' # rest)"
proof -
  let ?d = "max 0 (if_none delay_unexpected (self_delay_unexpected (self st)))"
  let ?E = "if_none expected (self_expected (self st))"
  let ?n = "if_none max_tries (self_max_tries (self st))"
  let ?body = "request_body super_request pf meth url args kwargs ?E ?d"
  let ?is = "[1..max 1 ?n]"
  let ?L = "for_else ?body ?is (0, Response, st)"
  let ?A = "request super_request pf st meth url args expected max_tries
             delay_unexpected log_tag kwargs"
  let ?c = "length (filter (is_send ByRequest) pre)"
  have d: "0 \<le> ?d" by simp
  note rb = request_body_retry [OF d, of meth url args kwargs ?E super_request pf]
  obtain evs log where
    tr1: "trace (loop_state ?L) = trace st @ evs" and
    "self (final_state ?A) = self st" and
    trA: "trace (final_state ?A) = trace st @ evs @ log" and
    "\<exists>r rest. evs = Send ByRequest meth url args kwargs r # rest" and
    "int (calls_by ByRequest evs) \<le> max 1 ?n" and
    q: "\<forall>x \<in> set evs. (is_send ByRequest x \<longrightarrow> (\<exists>r. x = Send ByRequest meth url args kwargs r)) \<and>
         \<not> is_warning ByRequest x" and
    nolog: "\<forall>x \<in> set log. (\<forall>who. \<not> is_send who x) \<and> (\<forall>s. x \<noteq> Sleep s) \<and>
       \<not> is_warning ByAuthRequest x" and
    out: "(\<exists>s. ?L = Inl (OverflowError, s) \<and> ?A = Inl (OverflowError, s) \<and> log = []) \<or>
      (\<exists>b tries resp st1. ?L = Inr (b, tries, resp, st1) \<and>
           ?A = Inr (resp, st1\<lparr>trace := trace st @ evs @ log\<rparr>) \<and>
           log = (if b then [] else [Warning ByRequest tries meth url args kwargs resp]) @
            (case log_tag of None \<Rightarrow> [] | Some tag \<Rightarrow> [Info ByRequest tries tag]))"
    by (rule request_outcome)
  from nolog have nosend: "\<forall>x \<in> set log. \<not> is_send ByRequest x" by blast
  from tr trA have "evs @ log = pre @ Send ByRequest m u a k r # post" by simp
  from split_before_rest [OF this nosend]
  obtain post1 where evs: "evs = pre @ Send ByRequest m u a k r # post1" and
    post: "post = post1 @ log" by auto
  from tr1 evs have "trace (loop_state ?L) =
      trace (st_of (0, Response, st)) @ pre @ Send ByRequest m u a k r # post1"
    by simp
  from for_else_locate [OF rb this is_send.simps(1) [THEN iffD2, OF refl]]
  obtain loc_i r_i st_i more ok where
    n: "?c < length ?is" and
    bd: "?body (?is ! ?c) loc_i =
           (if ok then Inr (?E r_i, (?is ! ?c, r_i, st_i)) else Inl (OverflowError, st_i))" and
    si0: "self (st_of loc_i) = self (st_of (0, Response, st))" and
    tri0: "trace (st_of loc_i) = trace (st_of (0, Response, st)) @ pre" and
    more: "trace (loop_state ?L) = trace st_i @ more" and
    raised: "\<not> ok \<longrightarrow> more = [] \<and> ?L = Inl (OverflowError, st_i)" and
    accepted: "?E r_i \<longrightarrow> more = [] \<and> ?L = Inr (True, ?is ! ?c, r_i, st_i)" and
    final: "ok \<and> \<not> ?E r_i \<and> Suc ?c = length ?is \<longrightarrow>
              more = [] \<and> ?L = Inr (False, ?is ! ?c, r_i, st_i)" and
    nxt: "ok \<and> \<not> ?E r_i \<and> Suc ?c < length ?is \<longrightarrow>
              (\<exists>r' rest. more = Send ByRequest meth url args kwargs r' # rest)"
    by blast
  from tri0 have tri: "trace (st_of loc_i) = trace st @ pre" by simp
  from si0 have si: "self (st_of loc_i) = self st" by simp
  obtain r' t' where rt: "super_request (transport (st_of loc_i)) meth url args kwargs = (r', t')"
    by (cases "super_request (transport (st_of loc_i)) meth url args kwargs")
  note eq = request_body_eq [where super_request = super_request and expected = ?E,
      OF d rt, of pf "?is ! ?c"]
  let ?sent = "(st_of loc_i)\<lparr>transport := t',
             trace := trace (st_of loc_i) @ [Send ByRequest meth url args kwargs r']\<rparr>"
  from n have cnt: "1 + int (calls_by ByRequest pre) \<le> max 1 ?n"
    unfolding calls_by_def by simp
  from n have nth: "?is ! ?c = 1 + int (calls_by ByRequest pre)"
    unfolding calls_by_def by simp
  have lastc: "(1 + int (calls_by ByRequest pre) = max 1 ?n) = (Suc ?c = length ?is)"
    unfolding calls_by_def by (rule last_attempt)
  from q evs have nw: "\<forall>x \<in> set pre. \<not> is_warning ByRequest x" by auto
  let ?info = "\<lambda>tries. (case log_tag of None \<Rightarrow> []
                       | Some tag \<Rightarrow> [Info ByRequest tries tag])"
  let ?At = "\<lambda>t. auth_request super_request pf
                   (st\<lparr>transport := t, trace := trace st @ pre @ [Send ByRequest m u a k r]\<rparr>)
                   None None [] None None None None []"
  let ?inner = "\<lambda>aev sta.
                    if sleep_limit \<le> ?d
                     then post = aev \<and> ?A = Inl (OverflowError, sta)
                     else if 1 + int (calls_by ByRequest pre) = max 1 ?n
                     then post = aev @ Sleep ?d #
                            Warning ByRequest (max 1 ?n) meth url args kwargs r # ?info (max 1 ?n) \<and>
                          ?A = Inr (r, final_state ?A)
                     else \<exists>r' rest. post = aev @ Sleep ?d #
                            Send ByRequest meth url args kwargs r' # rest"
  let ?auth = "\<exists>t aev.
                 trace (final_state (?At t)) = trace st @ pre @ Send ByRequest m u a k r # aev \<and>
                 (\<forall>x \<in> set aev. \<not> is_send ByRequest x) \<and>
                 (\<forall>e sta. ?At t = Inl (e, sta) \<longrightarrow> post = aev \<and> ?A = Inl (e, sta)) \<and>
                 (\<forall>ar sta. ?At t = Inr (ar, sta) \<longrightarrow> ?inner aev sta)"
  let ?tail = "if ?E r
          then ?A = Inr (r, final_state ?A) \<and>
               post = ?info (1 + int (calls_by ByRequest pre))
          else if status_code r = Some 401 then ?auth
          else case backoff pf r ?d of
                 None \<Rightarrow> post = [] \<and> ?A = Inl (OverflowError, final_state ?A)
               | Some x \<Rightarrow>
                   if 1 + int (calls_by ByRequest pre) = max 1 ?n
                   then post = Sleep x #
                          Warning ByRequest (max 1 ?n) meth url args kwargs r # ?info (max 1 ?n) \<and>
                        ?A = Inr (r, final_state ?A)
                   else \<exists>r' rest. post = Sleep x # Send ByRequest meth url args kwargs r' # rest"
  consider (acc) "?E r'"
    | (auth) "\<not> ?E r'" "status_code r' = Some 401"
    | (raise) "\<not> ?E r'" "status_code r' \<noteq> Some 401" "backoff pf r' ?d = None"
    | (slept) x where "\<not> ?E r'" "status_code r' \<noteq> Some 401" "backoff pf r' ?d = Some x"
    by (cases "backoff pf r' ?d") auto
  then have "m = meth \<and> u = url \<and> a = args \<and> k = kwargs \<and> ?tail"
  proof cases
    case acc
    from bd [unfolded eq] acc have ri: "r_i = r'" and sti: "st_i = ?sent"
      by (auto split: if_splits)
    from more sti tri tr1 evs
    have cmp: "Send ByRequest m u a k r # post1 = Send ByRequest meth url args kwargs r' # more"
      by simp
    then have id: "m = meth" "u = url" "a = args" "k = kwargs" and r: "r' = r" and
      p1: "post1 = more"
      by simp_all
    from acc r have c: "?E r" by simp
    from accepted acc ri r have m0: "more = []" and L: "?L = Inr (True, ?is ! ?c, r, st_i)"
      by simp_all
    from out L obtain st1 where
      A: "?A = Inr (r, st1\<lparr>trace := trace st @ evs @ log\<rparr>)" and
      log: "log = ?info (?is ! ?c)"
      by auto
    from A have res: "?A = Inr (r, final_state ?A)" by (rule returned_final)
    from post p1 m0 log have pst: "post = ?info (1 + int (calls_by ByRequest pre))"
      unfolding nth by simp
    have t: ?tail
      unfolding if_P [OF c] by (intro conjI res pst)
    from id t show ?thesis by (intro conjI)
  next
    case raise
    from bd [unfolded eq] raise have nok: "\<not> ok" and sti: "st_i = ?sent"
      by (auto split: if_splits)
    from more sti tri tr1 evs
    have cmp: "Send ByRequest m u a k r # post1 = Send ByRequest meth url args kwargs r' # more"
      by simp
    then have id: "m = meth" "u = url" "a = args" "k = kwargs" and r: "r' = r" and
      p1: "post1 = more"
      by simp_all
    from raise r have c: "\<not> ?E r" and c1: "status_code r \<noteq> Some 401" and
      c2: "backoff pf r ?d = None" by simp_all
    from raised nok have m0: "more = []" and L: "?L = Inl (OverflowError, st_i)" by simp_all
    from out L have A: "?A = Inl (OverflowError, st_i)" and log: "log = []" by auto
    from A have res: "?A = Inl (OverflowError, final_state ?A)" by (rule raised_final)
    from post p1 m0 log have pst: "post = []" by simp
    have t: ?tail
      unfolding if_not_P [OF c] if_not_P [OF c1] c2 option.case by (intro conjI res pst)
    from id t show ?thesis by (intro conjI)
  next
    case slept
    from bd [unfolded eq] slept have ok: "ok" and ri: "r_i = r'" and
      sti: "st_i = ?sent\<lparr>trace := trace ?sent @ [Sleep x]\<rparr>"
      by (auto split: if_splits)
    from more sti tri tr1 evs
    have cmp: "Send ByRequest m u a k r # post1 =
        Send ByRequest meth url args kwargs r' # Sleep x # more"
      by simp
    then have id: "m = meth" "u = url" "a = args" "k = kwargs" and r: "r' = r" and
      p1: "post1 = Sleep x # more"
      by simp_all
    from slept r have c: "\<not> ?E r" and c1: "status_code r \<noteq> Some 401" and
      c2: "backoff pf r ?d = Some x" by simp_all
    show ?thesis
    proof (cases "Suc ?c = length ?is")
      case True
      with final ok ri r c have m0: "more = []" and L: "?L = Inr (False, ?is ! ?c, r, st_i)"
        by simp_all
      from True lastc have e: "1 + int (calls_by ByRequest pre) = max 1 ?n" by blast
      with nth have tries: "?is ! ?c = max 1 ?n" by simp
      from out L obtain st1 where
        A: "?A = Inr (r, st1\<lparr>trace := trace st @ evs @ log\<rparr>)" and
        log: "log = [Warning ByRequest (?is ! ?c) meth url args kwargs r] @ ?info (?is ! ?c)"
        by auto
      from A have res: "?A = Inr (r, final_state ?A)" by (rule returned_final)
      from post p1 m0 log have pst: "post = Sleep x #
          Warning ByRequest (max 1 ?n) meth url args kwargs r # ?info (max 1 ?n)"
        unfolding tries by simp
      have t: ?tail
        unfolding if_not_P [OF c] if_not_P [OF c1] c2 option.case if_P [OF e]
        by (intro conjI res pst)
      from id t show ?thesis by (intro conjI)
    next
      case False
      with n have "Suc ?c < length ?is" by simp
      with nxt ok ri r c obtain r'' rest where
        "more = Send ByRequest meth url args kwargs r'' # rest" by auto
      with post p1 have pst: "\<exists>r' rest. post = Sleep x # Send ByRequest meth url args kwargs r' # rest"
        by simp
      from False lastc have ne: "1 + int (calls_by ByRequest pre) \<noteq> max 1 ?n" by blast
      have t: ?tail
        unfolding if_not_P [OF c] if_not_P [OF c1] c2 option.case if_not_P [OF ne] by (rule pst)
      from id t show ?thesis by (intro conjI)
    qed
  next
    case auth
    let ?N = "auth_request super_request pf ?sent None None [] None None None None []"
    obtain aev where
      sa: "self (final_state ?N) = self ?sent" and
      ta: "trace (final_state ?N) = trace ?sent @ aev" and
      qa: "\<forall>x \<in> set aev. \<not> is_send ByRequest x \<and> \<not> is_warning ByRequest x" and
      ea: "\<forall>e s. ?N = Inl (e, s) \<longrightarrow> e = OverflowError"
      by (rule auth_request_run)
    from qa have qs: "\<forall>x \<in> set aev. \<not> is_send ByRequest x" by blast
    have key: "\<exists>tl. trace st_i = trace ?sent @ aev @ tl \<and>
        (\<forall>x \<in> set tl. \<not> is_send ByRequest x)"
    proof (cases ?N)
      case (Inl p)
      obtain e s where p: "p = (e, s)" by (cases p)
      with Inl ea have N: "?N = Inl (OverflowError, s)" by simp
      from bd [unfolded eq] auth N have "st_i = s" by (auto split: if_splits)
      with ta N show ?thesis by (intro exI [of _ "[]"]) (simp add: final_state_simps)
    next
      case (Inr p)
      obtain ar sa' where p: "p = (ar, sa')" by (cases p)
      with Inr have N: "?N = Inr (ar, sa')" by simp
      show ?thesis
      proof (cases "fixed_sleep ?d")
        case None
        from bd [unfolded eq] auth N None have "st_i = sa'" by (auto split: if_splits)
        with ta N show ?thesis by (intro exI [of _ "[]"]) (simp add: final_state_simps)
      next
        case (Some x)
        from bd [unfolded eq] auth N Some have "st_i = sa'\<lparr>trace := trace sa' @ [Sleep x]\<rparr>"
          by (auto split: if_splits)
        with ta N show ?thesis by (intro exI [of _ "[Sleep x]"]) (simp add: final_state_simps)
      qed
    qed
    then obtain tl where sti0: "trace st_i = trace ?sent @ aev @ tl" by blast
    from more sti0 tri tr1 evs
    have cmp: "Send ByRequest m u a k r # post1 =
        Send ByRequest meth url args kwargs r' # aev @ tl @ more"
      by simp
    then have id: "m = meth" "u = url" "a = args" "k = kwargs" and r: "r' = r"
      by simp_all
    from auth r have c: "\<not> ?E r" and c1: "status_code r = Some 401" by simp_all
    have start: "st\<lparr>transport := t', trace := trace st @ pre @ [Send ByRequest m u a k r]\<rparr> = ?sent"
      using state_update_eq [OF si, where t = t' and
          tr = "trace st @ pre @ [Send ByRequest m u a k r]"]
        tri id r by simp
    from ta tri id r have ta': "trace (final_state ?N) =
        trace st @ pre @ Send ByRequest m u a k r # aev" by simp
    have a: ?auth
    proof (cases ?N)
      case (Inl p)
      obtain e s where p: "p = (e, s)" by (cases p)
      with Inl ea have N: "?N = Inl (OverflowError, s)" by simp
      from bd [unfolded eq] auth N have nok: "\<not> ok" and sti: "st_i = s"
        by (auto split: if_splits)
      from sti ta N have "trace st_i = trace ?sent @ aev" by (simp add: final_state_simps)
      with more tri tr1 evs id r have p1: "post1 = aev @ more" by simp
      from raised nok have m0: "more = []" and L: "?L = Inl (OverflowError, st_i)" by simp_all
      from out L have A: "?A = Inl (OverflowError, st_i)" and log: "log = []" by auto
      from post p1 m0 log have pst: "post = aev" by simp
      have 1: "\<forall>e' sta. ?N = Inl (e', sta) \<longrightarrow> post = aev \<and> ?A = Inl (e', sta)"
        unfolding N using pst A sti by simp
      have 2: "\<forall>ar sta. ?N = Inr (ar, sta) \<longrightarrow> ?inner aev sta"
        unfolding N by simp
      show ?thesis
        apply (rule exI [of _ t'], rule exI [of _ aev])
        unfolding start
        by (intro conjI ta' qs 1 2)
    next
      case (Inr p)
      obtain ar sa' where p: "p = (ar, sa')" by (cases p)
      with Inr have N: "?N = Inr (ar, sa')" by simp
      have 1: "\<forall>e' sta. ?N = Inl (e', sta) \<longrightarrow> post = aev \<and> ?A = Inl (e', sta)"
        unfolding N by simp
      have 2: "\<forall>ar' sta. ?N = Inr (ar', sta) \<longrightarrow> ?inner aev sta"
      proof (intro allI impI)
        fix ar' sta
        assume "?N = Inr (ar', sta)"
        with N have sta: "sta = sa'" by simp
        show "?inner aev sta"
        proof (cases "fixed_sleep ?d")
          case None
          then have lim: "sleep_limit \<le> ?d" by (simp only: fixed_sleep_None)
          from bd [unfolded eq] auth N None have nok: "\<not> ok" and sti: "st_i = sa'"
            by (auto split: if_splits)
          from sti ta N have "trace st_i = trace ?sent @ aev" by (simp add: final_state_simps)
          with more tri tr1 evs id r have p1: "post1 = aev @ more" by simp
          from raised nok have m0: "more = []" and L: "?L = Inl (OverflowError, st_i)"
            by simp_all
          from out L have "?A = Inl (OverflowError, st_i)" and log: "log = []" by auto
          with sti sta have A: "?A = Inl (OverflowError, sta)" by simp
          from post p1 m0 log have pst: "post = aev" by simp
          show ?thesis
            unfolding if_P [OF lim] by (intro conjI pst A)
        next
          case (Some x)
          from fixed_sleep_Some [OF Some] have x: "x = ?d" and nlim: "\<not> sleep_limit \<le> ?d"
            by (simp, linarith)
          from bd [unfolded eq] auth N Some x have ok: "ok" and ri: "r_i = r'" and
            sti: "st_i = sa'\<lparr>trace := trace sa' @ [Sleep ?d]\<rparr>"
            by (auto split: if_splits)
          from sti ta N have "trace st_i = trace ?sent @ aev @ [Sleep ?d]"
            by (simp add: final_state_simps)
          with more tri tr1 evs id r have p1: "post1 = aev @ Sleep ?d # more" by simp
          show ?thesis
          proof (cases "Suc ?c = length ?is")
            case True
            with final ok ri r c have m0: "more = []" and
              L: "?L = Inr (False, ?is ! ?c, r, st_i)"
              by simp_all
            from True lastc have e: "1 + int (calls_by ByRequest pre) = max 1 ?n" by blast
            with nth have tries: "?is ! ?c = max 1 ?n" by simp
            from out L obtain st1 where
              A: "?A = Inr (r, st1\<lparr>trace := trace st @ evs @ log\<rparr>)" and
              log: "log = [Warning ByRequest (?is ! ?c) meth url args kwargs r] @ ?info (?is ! ?c)"
              by auto
            from A have res: "?A = Inr (r, final_state ?A)" by (rule returned_final)
            from post p1 m0 log have pst: "post = aev @ Sleep ?d #
                Warning ByRequest (max 1 ?n) meth url args kwargs r # ?info (max 1 ?n)"
              unfolding tries by simp
            show ?thesis
              unfolding if_not_P [OF nlim] if_P [OF e] by (intro conjI res pst)
          next
            case False
            with n have "Suc ?c < length ?is" by simp
            with nxt ok ri r c obtain r'' rest where
              "more = Send ByRequest meth url args kwargs r'' # rest" by auto
            with post p1 have pst: "\<exists>r' rest. post = aev @ Sleep ?d #
                Send ByRequest meth url args kwargs r' # rest"
              by simp
            from False lastc have ne: "1 + int (calls_by ByRequest pre) \<noteq> max 1 ?n" by blast
            show ?thesis
              unfolding if_not_P [OF nlim] if_not_P [OF ne] by (rule pst)
          qed
        qed
      qed
      show ?thesis
        apply (rule exI [of _ t'], rule exI [of _ aev])
        unfolding start
        by (intro conjI ta' qs 1 2)
    qed
    have t: ?tail
      unfolding if_not_P [OF c] if_P [OF c1] by (rule a)
    from id t show ?thesis by (intro conjI)
  qed
  with cnt nw show ?thesis by blast
qed

subsection \<open>Facts used by several claims\<close>

lemma events_of_Inr: "res = Inr (resp, st) \<Longrightarrow> trace st = events_of res"
  by (simp add: events_of_def final_state_def)

lemma events_of_final: "trace (final_state res) = events_of res"
  by (simp add: events_of_def)

lemma no_exception_returns:
  "exception_of res = None \<Longrightarrow> \<exists>resp st'. res = Inr (resp, st')"
  by (cases res) (auto simp: exception_of_def split: prod.splits)

lemma exception_of_simps:
  "exception_of (Inl (e, st)) = Some e"
  "exception_of (Inr (resp, st)) = None"
  by (simp_all add: exception_of_def)

lemma upto_13: "[1..3::int] = [1, 2, 3]"
  by (simp add: upto_rec1)

lemma dict_merge_lookup:
  assumes "distinct (map fst b)"
  shows "map_of (dict_merge a b) = map_of a ++ map_of b"
  unfolding dict_merge_def using assms
proof (induction b arbitrary: a)
  case Nil
  show ?case by simp
next
  case (Cons x b)
  let ?f = "\<lambda>(k, v). AList.update k v"
  obtain k v where x: "x = (k, v)" by (cases x)
  from Cons.prems x have k: "k \<notin> fst ` set b" and d: "distinct (map fst b)" by auto
  from k have "map_of b k = None" by (simp add: map_of_eq_None_iff)
  then have h: "(map_of a)(k \<mapsto> v) ++ map_of b = (map_of a ++ map_of b)(k \<mapsto> v)"
    by (auto simp: map_add_def fun_eq_iff split: option.splits)
  have "map_of (fold ?f (x # b) a) = map_of (fold ?f b (AList.update k v a))"
    using x by simp
  also have "\<dots> = map_of (AList.update k v a) ++ map_of b"
    by (rule Cons.IH [OF d])
  also have "\<dots> = (map_of a)(k \<mapsto> v) ++ map_of b"
    by (simp only: update_conv')
  also have "\<dots> = (map_of a ++ map_of b)(k \<mapsto> v)"
    by (rule h)
  also have "\<dots> = map_of a ++ map_of (x # b)"
    using x by (simp only: map_of.simps map_add_upd fst_conv snd_conv)
  finally show ?case .
qed

section \<open>Construction: claim C2\<close>

lemma init_request_defaults_clamped:
  "1 \<le> self_max_tries (init method url auth_expected auth_max_tries auth_delay_unexpected
            expected max_tries delay_unexpected logger kwargs) \<and>
   0 \<le> self_delay_unexpected (init method url auth_expected auth_max_tries
            auth_delay_unexpected expected max_tries delay_unexpected logger kwargs)"
  by (simp add: init_def)

text \<open>
  C2. The claim is that construction clamps all four defaults: both stored \<open>maxTries\<close> are
  \<open>max(1, input)\<close> and both stored \<open>fixedDelay\<close> are \<open>max(0.0, input)\<close>. Lines 36 and 37 clamp
  the pair of \<open>request\<close>; lines 33 and 34 store the pair of \<open>auth_request\<close> as given. Built with
  \<open>auth_max_tries=0\<close> and \<open>auth_delay_unexpected=-1.0\<close>, the session stores 0 and -1.0, where
  the same inputs for the other pair are stored as 1 and 0.0.
\<close>

theorem init_auth_defaults_not_clamped:
  "self_auth_max_tries (init ''POST'' ''/authentication'' None (Some 0) (Some (- 1))
       None (Some 0) (Some (- 1)) None ([] :: (string \<times> string) list)) = 0 \<and>
   self_auth_delay_unexpected (init ''POST'' ''/authentication'' None (Some 0) (Some (- 1))
       None (Some 0) (Some (- 1)) None ([] :: (string \<times> string) list)) = - 1 \<and>
   self_max_tries (init ''POST'' ''/authentication'' None (Some 0) (Some (- 1))
       None (Some 0) (Some (- 1)) None ([] :: (string \<times> string) list)) = 1 \<and>
   self_delay_unexpected (init ''POST'' ''/authentication'' None (Some 0) (Some (- 1))
       None (Some 0) (Some (- 1)) None ([] :: (string \<times> string) list)) = 0"
  by (simp add: init_def if_none_def)

section \<open>Calls of the transport: claim C3\<close>

text \<open>
  C3, as the claim states it: a call with resolved \<open>maxTries\<close> of at least 1 invokes the
  transport at least once and at most \<open>maxTries\<close> times. For \<open>request\<close> this fails: a rejected
  401 response runs \<open>auth_request\<close>, which calls the same transport. With \<open>max_tries=1\<close>, one
  401 response and the default authentication predicate, the transport is called twice.
\<close>

theorem request_reauth_counterexample:
  "transport_calls (events_of (request scripted float_5 (fresh [answer 401 []])
      ''GET'' ''/data'' [] (Some never) (Some 1) None None [])) = 2 \<and>
   events_of (request scripted float_5 (fresh [answer 401 []])
      ''GET'' ''/data'' [] (Some never) (Some 1) None None []) =
     [Send ByRequest ''GET'' ''/data'' [] [] (answer 401 []),
      Send ByAuthRequest ''POST'' ''/authentication'' [] [(''json'', ''credentials'')]
        (answer 200 []),
      Sleep 2,
      Warning ByRequest 1 ''GET'' ''/data'' [] [] (answer 401 [])]"
  by code_simp

text \<open>
  C3, amended: during every call of \<open>auth_request\<close> the transport is called at least once and
  at most the resolved \<open>maxTries\<close> times in all; during every call of \<open>request\<close> the method
  itself calls the transport for the original request at least once and at most its resolved
  \<open>maxTries\<close> times, the calls made by nested authentication cycles not counted. The events
  counted are those up to the end of the call, whether it returns a response or a sleep
  raises.
\<close>

theorem transport_calls_bounded:
  fixes super_request :: "('t, 'v) super_request" and st :: "('t, 'v) state"
  shows "(\<exists>st' evs.
            final_state (auth_request super_request py_float st method' url' args' expected'
              max_tries' delay_unexpected' log_tag' kwargs') = st' \<and>
            trace st' = trace st @ evs \<and>
            1 \<le> transport_calls evs \<and>
            int (transport_calls evs) \<le> max 1 (if_none max_tries' (self_auth_max_tries (self st)))) \<and>
         (\<exists>st' evs.
            final_state (request super_request py_float st method url args expected
              max_tries delay_unexpected log_tag kwargs) = st' \<and>
            trace st' = trace st @ evs \<and>
            1 \<le> calls_by ByRequest evs \<and>
            int (calls_by ByRequest evs) \<le> max 1 (if_none max_tries (self_max_tries (self st))))"
proof
  let ?M = "if_none method' (self_method (self st))"
  let ?U = "if_none url' (self_url (self st))"
  let ?K = "dict_merge (self_kwargs (self st)) kwargs'"
  let ?n = "if_none max_tries' (self_auth_max_tries (self st))"
  let ?A = "auth_request super_request py_float st method' url' args' expected'
              max_tries' delay_unexpected' log_tag' kwargs'"
  obtain evs log where
    "trace (loop_state (for_else (auth_request_body super_request py_float ?M ?U args' ?K
               (if_none expected' (self_auth_expected (self st)))
               (max 0 (if_none delay_unexpected' (self_auth_delay_unexpected (self st)))))
             [1..max 1 ?n] (0, Response, st))) = trace st @ evs" and
    "self (final_state ?A) = self st" and
    trA: "trace (final_state ?A) = trace st @ evs @ log" and
    hd: "\<exists>r rest. evs = Send ByAuthRequest ?M ?U args' ?K r # rest" and
    cnt: "int (calls_by ByAuthRequest evs) \<le> max 1 ?n" and
    q: "\<forall>x \<in> set evs. (\<exists>r. x = Send ByAuthRequest ?M ?U args' ?K r) \<or> (\<exists>s. x = Sleep s)" and
    nolog: "\<forall>x \<in> set log. (\<forall>who. \<not> is_send who x) \<and> (\<forall>s. x \<noteq> Sleep s) \<and>
       \<not> is_warning ByRequest x"
    by (rule auth_request_outcome)
  from nolog have l: "filter (is_send ByAuthRequest) log = []" "filter (is_send ByRequest) log = []"
    by (simp_all add: filter_empty_conv)
  from q have "filter (is_send ByRequest) evs = []"
    by (auto simp: filter_empty_conv)
  with l have "transport_calls (evs @ log) = calls_by ByAuthRequest evs"
    by (simp add: transport_calls_def calls_by_def)
  moreover from hd have "1 \<le> calls_by ByAuthRequest evs"
    by (auto simp: calls_by_def)
  ultimately show "\<exists>st' evs. final_state ?A = st' \<and>
            trace st' = trace st @ evs \<and>
            1 \<le> transport_calls evs \<and>
            int (transport_calls evs) \<le> max 1 ?n"
    using trA cnt by (intro exI [of _ "final_state ?A"] exI [of _ "evs @ log"]) simp
next
  let ?n = "if_none max_tries (self_max_tries (self st))"
  let ?A = "request super_request py_float st method url args expected
              max_tries delay_unexpected log_tag kwargs"
  obtain evs log where
    "trace (loop_state (for_else (request_body super_request py_float method url args kwargs
               (if_none expected (self_expected (self st)))
               (max 0 (if_none delay_unexpected (self_delay_unexpected (self st)))))
             [1..max 1 ?n] (0, Response, st))) = trace st @ evs" and
    "self (final_state ?A) = self st" and
    trA: "trace (final_state ?A) = trace st @ evs @ log" and
    hd: "\<exists>r rest. evs = Send ByRequest method url args kwargs r # rest" and
    cnt: "int (calls_by ByRequest evs) \<le> max 1 ?n" and
    "\<forall>x \<in> set evs. (is_send ByRequest x \<longrightarrow> (\<exists>r. x = Send ByRequest method url args kwargs r)) \<and>
         \<not> is_warning ByRequest x" and
    nolog: "\<forall>x \<in> set log. (\<forall>who. \<not> is_send who x) \<and> (\<forall>s. x \<noteq> Sleep s) \<and>
       \<not> is_warning ByAuthRequest x"
    by (rule request_outcome)
  from nolog have "filter (is_send ByRequest) log = []"
    by (simp add: filter_empty_conv)
  then have "calls_by ByRequest (evs @ log) = calls_by ByRequest evs"
    by (simp add: calls_by_def)
  moreover from hd have "1 \<le> calls_by ByRequest evs"
    by (auto simp: calls_by_def)
  ultimately show "\<exists>st' evs. final_state ?A = st' \<and>
            trace st' = trace st @ evs \<and>
            1 \<le> calls_by ByRequest evs \<and>
            int (calls_by ByRequest evs) \<le> max 1 ?n"
    using trA cnt by (intro exI [of _ "final_state ?A"] exI [of _ "evs @ log"]) simp
qed

theorem transport_calls_bounded_witness:
  "(\<exists>st' evs.
      final_state (auth_request scripted float_5 (fresh [answer 500 [], answer 200 []])
        None None [] (Some is_200) (Some 2) None None []) = st' \<and>
      trace st' = trace (fresh [answer 500 [], answer 200 []]) @ evs \<and>
      1 \<le> transport_calls evs \<and>
      int (transport_calls evs) \<le>
        max 1 (if_none (Some 2) (self_auth_max_tries (self (fresh [answer 500 [], answer 200 []]))))) \<and>
   (\<exists>st' evs.
      final_state (request scripted float_5 (fresh [answer 500 [], answer 200 []])
        ''GET'' ''/data'' [] (Some is_200) (Some 2) None None []) = st' \<and>
      trace st' = trace (fresh [answer 500 [], answer 200 []]) @ evs \<and>
      1 \<le> calls_by ByRequest evs \<and>
      int (calls_by ByRequest evs) \<le>
        max 1 (if_none (Some 2) (self_max_tries (self (fresh [answer 500 [], answer 200 []])))))"
  by (rule transport_calls_bounded)

section \<open>Authenticating again after a 401 response: claim C4\<close>

text \<open>
  C4. Take any call of \<open>request\<close> that returns and any call it made of the transport for the
  original request whose response \<open>r\<close> has status 401 and is rejected by the resolved
  predicate; \<open>pre\<close> are the events of the call before it. Then what follows is one run of
  \<open>auth_request\<close> with no argument given, so with the authentication defaults of the session,
  started in the state reached by that call of the transport (the stored attributes of \<open>st\<close>,
  the events up to the 401 response, the transport as the response left it); then one sleep of
  the resolved fixed delay; and only then the next call of the transport for the original
  request or, after the last attempt, the warning of \<open>request\<close>.
\<close>

theorem reauthentication_on_401:
  fixes super_request :: "('t, 'v) super_request" and st :: "('t, 'v) state"
  assumes "request super_request py_float st method url args expected
             max_tries delay_unexpected log_tag kwargs = Inr (resp, st')"
    and "trace st' = trace st @ pre @ Send ByRequest m u a k r # post"
    and "status_code r = Some 401"
    and "\<not> if_none expected (self_expected (self st)) r"
  shows "\<exists>t ar sta post'.
           auth_request super_request py_float
             (st\<lparr>transport := t, trace := trace st @ pre @ [Send ByRequest m u a k r]\<rparr>)
             None None [] None None None None [] = Inr (ar, sta) \<and>
           trace st' = trace sta @
             Sleep (max 0 (if_none delay_unexpected (self_delay_unexpected (self st)))) # post' \<and>
           ((\<exists>r' rest. post' = Send ByRequest method url args kwargs r' # rest) \<or>
            (\<exists>rest. post' = Warning ByRequest
                (max 1 (if_none max_tries (self_max_tries (self st))))
                method url args kwargs r # rest))"
proof -
  let ?d = "max 0 (if_none delay_unexpected (self_delay_unexpected (self st)))"
  let ?E = "if_none expected (self_expected (self st))"
  let ?n = "if_none max_tries (self_max_tries (self st))"
  let ?R = "request super_request py_float st method url args expected
             max_tries delay_unexpected log_tag kwargs"
  let ?info = "\<lambda>tries. (case log_tag of None \<Rightarrow> []
                       | Some tag \<Rightarrow> [Info ByRequest tries tag])"
  let ?At = "\<lambda>t. auth_request super_request py_float
                   (st\<lparr>transport := t, trace := trace st @ pre @ [Send ByRequest m u a k r]\<rparr>)
                   None None [] None None None None []"
  let ?inner = "\<lambda>aev sta.
                    if sleep_limit \<le> ?d
                     then post = aev \<and> ?R = Inl (OverflowError, sta)
                     else if 1 + int (calls_by ByRequest pre) = max 1 ?n
                     then post = aev @ Sleep ?d #
                            Warning ByRequest (max 1 ?n) method url args kwargs r # ?info (max 1 ?n) \<and>
                          ?R = Inr (r, final_state ?R)
                     else \<exists>r' rest. post = aev @ Sleep ?d #
                            Send ByRequest method url args kwargs r' # rest"
  let ?auth = "\<exists>t aev.
                 trace (final_state (?At t)) = trace st @ pre @ Send ByRequest m u a k r # aev \<and>
                 (\<forall>x \<in> set aev. \<not> is_send ByRequest x) \<and>
                 (\<forall>e sta. ?At t = Inl (e, sta) \<longrightarrow> post = aev \<and> ?R = Inl (e, sta)) \<and>
                 (\<forall>ar sta. ?At t = Inr (ar, sta) \<longrightarrow> ?inner aev sta)"
  from assms(1) have fin: "final_state ?R = st'" by (simp add: final_state_simps)
  from assms(2) have tr: "trace (final_state ?R) = trace st @ pre @ Send ByRequest m u a k r # post"
    unfolding fin .
  from request_locate [OF tr]
  have "if ?E r
          then ?R = Inr (r, final_state ?R) \<and>
               post = ?info (1 + int (calls_by ByRequest pre))
          else if status_code r = Some 401 then ?auth
          else case backoff py_float r ?d of
                 None \<Rightarrow> post = [] \<and> ?R = Inl (OverflowError, final_state ?R)
               | Some x \<Rightarrow>
                   if 1 + int (calls_by ByRequest pre) = max 1 ?n
                   then post = Sleep x #
                          Warning ByRequest (max 1 ?n) method url args kwargs r # ?info (max 1 ?n) \<and>
                        ?R = Inr (r, final_state ?R)
                   else \<exists>r' rest. post = Sleep x # Send ByRequest method url args kwargs r' # rest"
    by blast
  then have ?auth
    unfolding if_not_P [OF assms(4)] if_P [OF assms(3)] .
  then obtain t aev where
    ta: "trace (final_state (?At t)) = trace st @ pre @ Send ByRequest m u a k r # aev" and
    raised: "\<forall>e sta. ?At t = Inl (e, sta) \<longrightarrow> post = aev \<and> ?R = Inl (e, sta)" and
    returned: "\<forall>ar sta. ?At t = Inr (ar, sta) \<longrightarrow> ?inner aev sta"
    by blast
  show ?thesis
  proof (cases "?At t")
    case (Inl p)
    obtain e sta where "p = (e, sta)" by (cases p)
    with Inl raised have "?R = Inl (e, sta)" by simp
    with assms(1) show ?thesis by simp
  next
    case (Inr p)
    obtain ar sta where p: "p = (ar, sta)" by (cases p)
    with Inr have N: "?At t = Inr (ar, sta)" by simp
    with returned have inner: "?inner aev sta" by blast
    from ta N have tsta: "trace sta = trace st @ pre @ Send ByRequest m u a k r # aev"
      by (simp add: final_state_simps)
    have nlim: "\<not> sleep_limit \<le> ?d"
    proof
      assume "sleep_limit \<le> ?d"
      with inner have "?R = Inl (OverflowError, sta)" by (simp only: if_True)
      with assms(1) show False by simp
    qed
    have "\<exists>post'. trace st' = trace sta @ Sleep ?d # post' \<and>
           ((\<exists>r' rest. post' = Send ByRequest method url args kwargs r' # rest) \<or>
            (\<exists>rest. post' = Warning ByRequest (max 1 ?n) method url args kwargs r # rest))"
    proof (cases "1 + int (calls_by ByRequest pre) = max 1 ?n")
      case True
      from inner [unfolded if_not_P [OF nlim] if_P [OF True]]
      have "post = aev @ Sleep ?d #
          Warning ByRequest (max 1 ?n) method url args kwargs r # ?info (max 1 ?n)"
        by (rule conjunct1)
      with assms(2) tsta show ?thesis
        by (intro exI [of _ "Warning ByRequest (max 1 ?n) method url args kwargs r #
              ?info (max 1 ?n)"]) simp
    next
      case False
      from inner [unfolded if_not_P [OF nlim] if_not_P [OF False]]
      obtain r' rest where
        "post = aev @ Sleep ?d # Send ByRequest method url args kwargs r' # rest"
        by blast
      with assms(2) tsta show ?thesis
        by (intro exI [of _ "Send ByRequest method url args kwargs r' # rest"]) simp
    qed
    then obtain post' where
      "trace st' = trace sta @ Sleep ?d # post'"
      "(\<exists>r' rest. post' = Send ByRequest method url args kwargs r' # rest) \<or>
       (\<exists>rest. post' = Warning ByRequest (max 1 ?n) method url args kwargs r # rest)"
      by blast
    with N show ?thesis
      by (intro exI [of _ t] exI [of _ ar] exI [of _ sta] exI [of _ post'] conjI)
  qed
qed

lemma reauth_events:
  "events_of (request scripted float_5 (fresh [answer 401 [], answer 200 [], answer 200 []])
      ''GET'' ''/data'' [] (Some is_200) (Some 2) (Some 1) None []) =
   [Send ByRequest ''GET'' ''/data'' [] [] (answer 401 []),
    Send ByAuthRequest ''POST'' ''/authentication'' [] [(''json'', ''credentials'')] (answer 200 []),
    Sleep 1,
    Send ByRequest ''GET'' ''/data'' [] [] (answer 200 [])]"
  by code_simp

lemma reauth_returns:
  "exception_of (request scripted float_5 (fresh [answer 401 [], answer 200 [], answer 200 []])
      ''GET'' ''/data'' [] (Some is_200) (Some 2) (Some 1) None []) = None"
  by code_simp

theorem reauthentication_on_401_witness:
  "\<exists>resp st' post t ar sta post'.
     request scripted float_5 (fresh [answer 401 [], answer 200 [], answer 200 []])
       ''GET'' ''/data'' [] (Some is_200) (Some 2) (Some 1) None [] = Inr (resp, st') \<and>
     trace st' = trace (fresh [answer 401 [], answer 200 [], answer 200 []]) @ [] @
       Send ByRequest ''GET'' ''/data'' [] [] (answer 401 []) # post \<and>
     status_code (answer 401 []) = Some 401 \<and>
     \<not> if_none (Some is_200)
         (self_expected (self (fresh [answer 401 [], answer 200 [], answer 200 []])))
         (answer 401 []) \<and>
     auth_request scripted float_5
       ((fresh [answer 401 [], answer 200 [], answer 200 []])\<lparr>transport := t,
          trace := trace (fresh [answer 401 [], answer 200 [], answer 200 []]) @ [] @
            [Send ByRequest ''GET'' ''/data'' [] [] (answer 401 [])]\<rparr>)
       None None [] None None None None [] = Inr (ar, sta) \<and>
     trace st' = trace sta @
       Sleep (max 0 (if_none (Some 1)
         (self_delay_unexpected (self (fresh [answer 401 [], answer 200 [], answer 200 []]))))) #
       post' \<and>
     ((\<exists>r' rest. post' = Send ByRequest ''GET'' ''/data'' [] [] r' # rest) \<or>
      (\<exists>rest. post' = Warning ByRequest
          (max 1 (if_none (Some 2)
            (self_max_tries (self (fresh [answer 401 [], answer 200 [], answer 200 []])))))
          ''GET'' ''/data'' [] [] (answer 401 []) # rest))"
proof -
  let ?st = "fresh [answer 401 [], answer 200 [], answer 200 []]"
  from no_exception_returns [OF reauth_returns] obtain resp st' where
    run: "request scripted float_5 ?st ''GET'' ''/data'' [] (Some is_200) (Some 2) (Some 1)
            None [] = Inr (resp, st')"
    by blast
  have tr: "trace st' = trace ?st @ [] @
      Send ByRequest ''GET'' ''/data'' [] [] (answer 401 []) #
      [Send ByAuthRequest ''POST'' ''/authentication'' [] [(''json'', ''credentials'')] (answer 200 []),
       Sleep 1,
       Send ByRequest ''GET'' ''/data'' [] [] (answer 200 [])]"
    unfolding events_of_Inr [OF run] reauth_events by (simp add: fresh_def)
  have h3: "status_code (answer 401 []) = Some 401" by (simp add: answer_def)
  have h4: "\<not> if_none (Some is_200) (self_expected (self ?st)) (answer 401 [])"
    by (simp add: if_none_def is_200_def answer_def)
  from reauthentication_on_401 [OF run tr h3 h4] run tr h3 h4
  show ?thesis by blast
qed

section \<open>An accepted response: claim C8\<close>

text \<open>
  C8. In both loops, when the predicate accepts the response of a call the loop made of the
  transport, that call is attempt \<open>k\<close>, one more than the calls the loop made before it, with
  \<open>k\<close> at most the resolved \<open>maxTries\<close>; nothing follows it but the info message, which is
  logged if a tag was given and reports \<open>k\<close>: no further call of the transport, no sleep; the
  method has logged no warning; and the call returns the accepted response.
\<close>

theorem accepted_response_ends_loop:
  fixes super_request :: "('t, 'v) super_request" and st :: "('t, 'v) state"
  shows "(\<exists>st' evs.
            final_state (auth_request super_request py_float st method' url' args' expected'
              max_tries' delay_unexpected' log_tag' kwargs') = st' \<and>
            trace st' = trace st @ evs \<and>
            (\<forall>pre m u a k r post.
               evs = pre @ Send ByAuthRequest m u a k r # post \<and>
               if_none expected' (self_auth_expected (self st)) r \<longrightarrow>
               auth_request super_request py_float st method' url' args' expected'
                 max_tries' delay_unexpected' log_tag' kwargs' = Inr (r, st') \<and>
               1 + int (calls_by ByAuthRequest pre) \<le>
                 max 1 (if_none max_tries' (self_auth_max_tries (self st))) \<and>
               post = (case log_tag' of None \<Rightarrow> []
                       | Some tag \<Rightarrow> [Info ByAuthRequest (1 + int (calls_by ByAuthRequest pre)) tag]) \<and>
               (\<forall>x \<in> set evs. \<not> is_warning ByAuthRequest x \<and> \<not> is_warning ByRequest x))) \<and>
         (\<exists>st' evs.
            final_state (request super_request py_float st method url args expected
              max_tries delay_unexpected log_tag kwargs) = st' \<and>
            trace st' = trace st @ evs \<and>
            (\<forall>pre m u a k r post.
               evs = pre @ Send ByRequest m u a k r # post \<and>
               if_none expected (self_expected (self st)) r \<longrightarrow>
               request super_request py_float st method url args expected
                 max_tries delay_unexpected log_tag kwargs = Inr (r, st') \<and>
               1 + int (calls_by ByRequest pre) \<le>
                 max 1 (if_none max_tries (self_max_tries (self st))) \<and>
               post = (case log_tag of None \<Rightarrow> []
                       | Some tag \<Rightarrow> [Info ByRequest (1 + int (calls_by ByRequest pre)) tag]) \<and>
               (\<forall>x \<in> set evs. \<not> is_warning ByRequest x)))"
proof
  let ?A = "auth_request super_request py_float st method' url' args' expected'
              max_tries' delay_unexpected' log_tag' kwargs'"
  obtain evs where "self (final_state ?A) = self st" and
    tr: "trace (final_state ?A) = trace st @ evs"
    by (rule auth_request_run)
  have "?A = Inr (r, final_state ?A) \<and>
        1 + int (calls_by ByAuthRequest pre) \<le>
          max 1 (if_none max_tries' (self_auth_max_tries (self st))) \<and>
        post = (case log_tag' of None \<Rightarrow> []
                | Some tag \<Rightarrow> [Info ByAuthRequest (1 + int (calls_by ByAuthRequest pre)) tag]) \<and>
        (\<forall>x \<in> set evs. \<not> is_warning ByAuthRequest x \<and> \<not> is_warning ByRequest x)"
    if evs: "evs = pre @ Send ByAuthRequest m u a k r # post"
      and acc: "if_none expected' (self_auth_expected (self st)) r"
    for pre m u a k r post
  proof -
    from tr evs have t: "trace (final_state ?A) =
        trace st @ pre @ Send ByAuthRequest m u a k r # post"
      by simp
    from auth_request_locate [OF t] acc
    have 1: "?A = Inr (r, final_state ?A)" and
      2: "1 + int (calls_by ByAuthRequest pre) \<le>
          max 1 (if_none max_tries' (self_auth_max_tries (self st)))" and
      3: "post = (case log_tag' of None \<Rightarrow> []
                | Some tag \<Rightarrow> [Info ByAuthRequest (1 + int (calls_by ByAuthRequest pre)) tag])" and
      4: "\<forall>x \<in> set pre. \<forall>who. \<not> is_warning who x"
      by simp_all
    from 3 4 evs have "\<forall>x \<in> set evs. \<not> is_warning ByAuthRequest x \<and> \<not> is_warning ByRequest x"
      by (auto split: option.splits)
    with 1 2 3 show ?thesis by (intro conjI)
  qed
  with tr show "\<exists>st' evs.
            final_state ?A = st' \<and>
            trace st' = trace st @ evs \<and>
            (\<forall>pre m u a k r post.
               evs = pre @ Send ByAuthRequest m u a k r # post \<and>
               if_none expected' (self_auth_expected (self st)) r \<longrightarrow>
               ?A = Inr (r, st') \<and>
               1 + int (calls_by ByAuthRequest pre) \<le>
                 max 1 (if_none max_tries' (self_auth_max_tries (self st))) \<and>
               post = (case log_tag' of None \<Rightarrow> []
                       | Some tag \<Rightarrow> [Info ByAuthRequest (1 + int (calls_by ByAuthRequest pre)) tag]) \<and>
               (\<forall>x \<in> set evs. \<not> is_warning ByAuthRequest x \<and> \<not> is_warning ByRequest x))"
    by (intro exI [of _ "final_state ?A"] exI [of _ evs]) blast
next
  let ?R = "request super_request py_float st method url args expected
              max_tries delay_unexpected log_tag kwargs"
  obtain evs0 log where
    "trace (loop_state (for_else (request_body super_request py_float method url args kwargs
               (if_none expected (self_expected (self st)))
               (max 0 (if_none delay_unexpected (self_delay_unexpected (self st)))))
             [1..max 1 (if_none max_tries (self_max_tries (self st)))] (0, Response, st)))
       = trace st @ evs0" and
    "self (final_state ?R) = self st" and
    tr0: "trace (final_state ?R) = trace st @ evs0 @ log"
    by (rule request_outcome)
  define evs where "evs = evs0 @ log"
  with tr0 have tr: "trace (final_state ?R) = trace st @ evs" by simp
  have "?R = Inr (r, final_state ?R) \<and>
        1 + int (calls_by ByRequest pre) \<le>
          max 1 (if_none max_tries (self_max_tries (self st))) \<and>
        post = (case log_tag of None \<Rightarrow> []
                | Some tag \<Rightarrow> [Info ByRequest (1 + int (calls_by ByRequest pre)) tag]) \<and>
        (\<forall>x \<in> set evs. \<not> is_warning ByRequest x)"
    if evs: "evs = pre @ Send ByRequest m u a k r # post"
      and acc: "if_none expected (self_expected (self st)) r"
    for pre m u a k r post
  proof -
    from tr evs have t: "trace (final_state ?R) =
        trace st @ pre @ Send ByRequest m u a k r # post"
      by simp
    from request_locate [OF t] acc
    have 1: "?R = Inr (r, final_state ?R)" and
      2: "1 + int (calls_by ByRequest pre) \<le>
          max 1 (if_none max_tries (self_max_tries (self st)))" and
      3: "post = (case log_tag of None \<Rightarrow> []
                | Some tag \<Rightarrow> [Info ByRequest (1 + int (calls_by ByRequest pre)) tag])" and
      4: "\<forall>x \<in> set pre. \<not> is_warning ByRequest x"
      by simp_all
    from 3 4 evs have "\<forall>x \<in> set evs. \<not> is_warning ByRequest x"
      by (auto split: option.splits)
    with 1 2 3 show ?thesis by (intro conjI)
  qed
  with tr show "\<exists>st' evs.
            final_state ?R = st' \<and>
            trace st' = trace st @ evs \<and>
            (\<forall>pre m u a k r post.
               evs = pre @ Send ByRequest m u a k r # post \<and>
               if_none expected (self_expected (self st)) r \<longrightarrow>
               ?R = Inr (r, st') \<and>
               1 + int (calls_by ByRequest pre) \<le>
                 max 1 (if_none max_tries (self_max_tries (self st))) \<and>
               post = (case log_tag of None \<Rightarrow> []
                       | Some tag \<Rightarrow> [Info ByRequest (1 + int (calls_by ByRequest pre)) tag]) \<and>
               (\<forall>x \<in> set evs. \<not> is_warning ByRequest x))"
    by (intro exI [of _ "final_state ?R"] exI [of _ evs]) blast
qed

lemma third_accepted_auth_events:
  "events_of (auth_request scripted float_5 (fresh [answer 500 [], answer 500 [], answer 200 []])
      None None [] (Some is_200) (Some 5) (Some 1) (Some ''login'') []) =
   [Send ByAuthRequest ''POST'' ''/authentication'' [] [(''json'', ''credentials'')] (answer 500 []),
    Sleep 1,
    Send ByAuthRequest ''POST'' ''/authentication'' [] [(''json'', ''credentials'')] (answer 500 []),
    Sleep 1] @
   Send ByAuthRequest ''POST'' ''/authentication'' [] [(''json'', ''credentials'')] (answer 200 []) #
   [Info ByAuthRequest 3 ''login'']"
  by code_simp

lemma third_accepted_request_events:
  "events_of (request scripted float_5 (fresh [answer 500 [], answer 500 [], answer 200 []])
      ''GET'' ''/data'' [] (Some is_200) (Some 5) (Some 1) (Some ''fetch'') []) =
   [Send ByRequest ''GET'' ''/data'' [] [] (answer 500 []),
    Sleep 1,
    Send ByRequest ''GET'' ''/data'' [] [] (answer 500 []),
    Sleep 1] @
   Send ByRequest ''GET'' ''/data'' [] [] (answer 200 []) #
   [Info ByRequest 3 ''fetch'']"
  by code_simp

theorem accepted_response_ends_loop_witness:
  "(\<exists>st' evs pre post.
      final_state (auth_request scripted float_5 (fresh [answer 500 [], answer 500 [], answer 200 []])
        None None [] (Some is_200) (Some 5) (Some 1) (Some ''login'') []) = st' \<and>
      trace st' = trace (fresh [answer 500 [], answer 500 [], answer 200 []]) @ evs \<and>
      evs = pre @
        Send ByAuthRequest ''POST'' ''/authentication'' [] [(''json'', ''credentials'')]
          (answer 200 []) # post \<and>
      calls_by ByAuthRequest pre = 2 \<and>
      if_none (Some is_200)
        (self_auth_expected (self (fresh [answer 500 [], answer 500 [], answer 200 []])))
        (answer 200 []) \<and>
      auth_request scripted float_5 (fresh [answer 500 [], answer 500 [], answer 200 []])
        None None [] (Some is_200) (Some 5) (Some 1) (Some ''login'') [] =
        Inr (answer 200 [], st') \<and>
      post = [Info ByAuthRequest 3 ''login''] \<and>
      \<not> (\<exists>x \<in> set evs. is_warning ByAuthRequest x \<or> is_warning ByRequest x)) \<and>
   (\<exists>st' evs pre post.
      final_state (request scripted float_5 (fresh [answer 500 [], answer 500 [], answer 200 []])
        ''GET'' ''/data'' [] (Some is_200) (Some 5) (Some 1) (Some ''fetch'') []) = st' \<and>
      trace st' = trace (fresh [answer 500 [], answer 500 [], answer 200 []]) @ evs \<and>
      evs = pre @ Send ByRequest ''GET'' ''/data'' [] [] (answer 200 []) # post \<and>
      calls_by ByRequest pre = 2 \<and>
      if_none (Some is_200)
        (self_expected (self (fresh [answer 500 [], answer 500 [], answer 200 []])))
        (answer 200 []) \<and>
      request scripted float_5 (fresh [answer 500 [], answer 500 [], answer 200 []])
        ''GET'' ''/data'' [] (Some is_200) (Some 5) (Some 1) (Some ''fetch'') [] =
        Inr (answer 200 [], st') \<and>
      post = [Info ByRequest 3 ''fetch''] \<and>
      \<not> (\<exists>x \<in> set evs. is_warning ByRequest x))"
proof
  let ?st = "fresh [answer 500 [], answer 500 [], answer 200 []]"
  let ?A = "auth_request scripted float_5 ?st None None [] (Some is_200) (Some 5) (Some 1)
            (Some ''login'') []"
  let ?pre = "[Send ByAuthRequest ''POST'' ''/authentication'' [] [(''json'', ''credentials'')] (answer 500 []),
    Sleep 1,
    Send ByAuthRequest ''POST'' ''/authentication'' [] [(''json'', ''credentials'')] (answer 500 []),
    Sleep 1]"
  let ?post = "[Info ByAuthRequest 3 ''login'']"
  have acc: "if_none (Some is_200) d (answer 200 [])" for d
    by (simp add: if_none_def is_200_def answer_def)
  have two: "calls_by ByAuthRequest ?pre = 2" by (simp add: calls_by_def)
  note inst = accepted_response_ends_loop [THEN conjunct1, of scripted float_5 ?st
      None None "[]" "Some is_200" "Some 5" "Some 1" "Some ''login''" "[]"]
  from inst obtain st' evs where
    fin: "final_state ?A = st'" and
    tr: "trace st' = trace ?st @ evs" and
    all: "\<And>pre m u a k r post.
            evs = pre @ Send ByAuthRequest m u a k r # post \<Longrightarrow>
            if_none (Some is_200) (self_auth_expected (self ?st)) r \<Longrightarrow>
            ?A = Inr (r, st') \<and>
            1 + int (calls_by ByAuthRequest pre) \<le>
              max 1 (if_none (Some 5) (self_auth_max_tries (self ?st))) \<and>
            post = (case Some ''login'' of None \<Rightarrow> []
                    | Some tag \<Rightarrow> [Info ByAuthRequest (1 + int (calls_by ByAuthRequest pre)) tag]) \<and>
            (\<forall>x \<in> set evs. \<not> is_warning ByAuthRequest x \<and> \<not> is_warning ByRequest x)"
    by blast
  from tr have evs: "evs = ?pre @
      Send ByAuthRequest ''POST'' ''/authentication'' [] [(''json'', ''credentials'')] (answer 200 []) #
      ?post"
    unfolding fin [symmetric] events_of_final third_accepted_auth_events by (simp add: fresh_def)
  from all [OF evs acc] two
  have r: "?A = Inr (answer 200 [], st')" and
    nw: "\<not> (\<exists>x \<in> set evs. is_warning ByAuthRequest x \<or> is_warning ByRequest x)"
    by auto
  show "\<exists>st' evs pre post.
      final_state ?A = st' \<and>
      trace st' = trace ?st @ evs \<and>
      evs = pre @
        Send ByAuthRequest ''POST'' ''/authentication'' [] [(''json'', ''credentials'')]
          (answer 200 []) # post \<and>
      calls_by ByAuthRequest pre = 2 \<and>
      if_none (Some is_200) (self_auth_expected (self ?st)) (answer 200 []) \<and>
      ?A = Inr (answer 200 [], st') \<and>
      post = [Info ByAuthRequest 3 ''login''] \<and>
      \<not> (\<exists>x \<in> set evs. is_warning ByAuthRequest x \<or> is_warning ByRequest x)"
    by (intro exI [of _ st'] exI [of _ evs] exI [of _ ?pre] exI [of _ ?post]
        conjI fin tr evs two acc r refl nw)
next
  let ?st = "fresh [answer 500 [], answer 500 [], answer 200 []]"
  let ?R = "request scripted float_5 ?st ''GET'' ''/data'' [] (Some is_200) (Some 5) (Some 1)
            (Some ''fetch'') []"
  let ?pre = "[Send ByRequest ''GET'' ''/data'' [] [] (answer 500 []),
    Sleep 1,
    Send ByRequest ''GET'' ''/data'' [] [] (answer 500 []),
    Sleep 1]"
  let ?post = "[Info ByRequest 3 ''fetch'']"
  have acc: "if_none (Some is_200) d (answer 200 [])" for d
    by (simp add: if_none_def is_200_def answer_def)
  have two: "calls_by ByRequest ?pre = 2" by (simp add: calls_by_def)
  note inst = accepted_response_ends_loop [THEN conjunct2, of scripted float_5 ?st
      "''GET''" "''/data''" "[]" "Some is_200" "Some 5" "Some 1" "Some ''fetch''" "[]"]
  from inst obtain st' evs where
    fin: "final_state ?R = st'" and
    tr: "trace st' = trace ?st @ evs" and
    all: "\<And>pre m u a k r post.
            evs = pre @ Send ByRequest m u a k r # post \<Longrightarrow>
            if_none (Some is_200) (self_expected (self ?st)) r \<Longrightarrow>
            ?R = Inr (r, st') \<and>
            1 + int (calls_by ByRequest pre) \<le>
              max 1 (if_none (Some 5) (self_max_tries (self ?st))) \<and>
            post = (case Some ''fetch'' of None \<Rightarrow> []
                    | Some tag \<Rightarrow> [Info ByRequest (1 + int (calls_by ByRequest pre)) tag]) \<and>
            (\<forall>x \<in> set evs. \<not> is_warning ByRequest x)"
    by blast
  from tr have evs: "evs = ?pre @ Send ByRequest ''GET'' ''/data'' [] [] (answer 200 []) # ?post"
    unfolding fin [symmetric] events_of_final third_accepted_request_events by (simp add: fresh_def)
  from all [OF evs acc] two
  have r: "?R = Inr (answer 200 [], st')" and
    nw: "\<not> (\<exists>x \<in> set evs. is_warning ByRequest x)"
    by auto
  show "\<exists>st' evs pre post.
      final_state ?R = st' \<and>
      trace st' = trace ?st @ evs \<and>
      evs = pre @ Send ByRequest ''GET'' ''/data'' [] [] (answer 200 []) # post \<and>
      calls_by ByRequest pre = 2 \<and>
      if_none (Some is_200) (self_expected (self ?st)) (answer 200 []) \<and>
      ?R = Inr (answer 200 [], st') \<and>
      post = [Info ByRequest 3 ''fetch''] \<and>
      \<not> (\<exists>x \<in> set evs. is_warning ByRequest x)"
    by (intro exI [of _ st'] exI [of _ evs] exI [of _ ?pre] exI [of _ ?post]
        conjI fin tr evs two acc r refl nw)
qed

section \<open>The stored attributes: claim C9\<close>

text \<open>
  C9. After every call of \<open>auth_request\<close> and of \<open>request\<close>, whether it returns a response or
  a sleep raises, the attributes stored at construction (method, url, keyword arguments, both
  predicates, both \<open>maxTries\<close> and both delays, the logger) are in the state it leaves what they
  were in the state it found: the arguments a call resolves and the merged keyword arguments
  are local to the call.
\<close>

theorem session_attributes_unchanged:
  fixes super_request :: "('t, 'v) super_request" and st :: "('t, 'v) state"
  shows "(\<exists>st'. final_state (auth_request super_request py_float st method' url' args' expected'
             max_tries' delay_unexpected' log_tag' kwargs') = st' \<and> self st' = self st) \<and>
         (\<exists>st'. final_state (request super_request py_float st method url args expected
             max_tries delay_unexpected log_tag kwargs) = st' \<and> self st' = self st)"
proof
  let ?A = "auth_request super_request py_float st method' url' args' expected'
             max_tries' delay_unexpected' log_tag' kwargs'"
  obtain evs where "self (final_state ?A) = self st"
    "trace (final_state ?A) = trace st @ evs"
    "\<forall>x \<in> set evs. \<not> is_send ByRequest x \<and> \<not> is_warning ByRequest x"
    "\<forall>e s. ?A = Inl (e, s) \<longrightarrow> e = OverflowError"
    by (rule auth_request_run)
  then show "\<exists>st'. final_state ?A = st' \<and> self st' = self st" by simp
next
  let ?R = "request super_request py_float st method url args expected
             max_tries delay_unexpected log_tag kwargs"
  obtain evs log where
    "trace (loop_state (for_else (request_body super_request py_float method url args kwargs
               (if_none expected (self_expected (self st)))
               (max 0 (if_none delay_unexpected (self_delay_unexpected (self st)))))
             [1..max 1 (if_none max_tries (self_max_tries (self st)))] (0, Response, st)))
       = trace st @ evs" and
    s: "self (final_state ?R) = self st"
    by (rule request_outcome)
  then show "\<exists>st'. final_state ?R = st' \<and> self st' = self st" by simp
qed

theorem session_attributes_unchanged_witness:
  "(\<exists>st'. final_state (auth_request scripted float_5 (fresh [answer 500 []])
       None None [] None (Some 0) (Some (- 1)) (Some ''login'') [(''json'', ''other'')]) = st' \<and>
       self st' = self (fresh [answer 500 []])) \<and>
   (\<exists>st'. final_state (request scripted float_5 (fresh [answer 500 []])
       ''GET'' ''/data'' [] (Some never) (Some 0) (Some (- 1)) (Some ''fetch'') []) = st' \<and>
       self st' = self (fresh [answer 500 []]))"
  by (rule session_attributes_unchanged)

section \<open>Keyword arguments: claim C10\<close>

text \<open>
  C10. Every call of the transport during \<open>auth_request\<close> passes the keyword arguments of the
  session merged with those of the call, and in the merged dictionary a key of the call has
  the value of the call, any other key the value of the session. Every call of the transport
  that \<open>request\<close> makes for the original request passes the keyword arguments of the call as
  they are. The calls are those up to the end of the call of the method, whether it returns a
  response or a sleep raises.
\<close>

theorem keyword_arguments_sent:
  fixes super_request :: "('t, 'v) super_request" and st :: "('t, 'v) state"
  shows "(\<exists>st' evs.
            final_state (auth_request super_request py_float st method' url' args' expected'
              max_tries' delay_unexpected' log_tag' kwargs') = st' \<and>
            trace st' = trace st @ evs \<and>
            (\<forall>who m u a k r. Send who m u a k r \<in> set evs \<longrightarrow>
               k = dict_merge (self_kwargs (self st)) kwargs')) \<and>
         (distinct (map fst kwargs') \<longrightarrow>
            (\<forall>key. map_of (dict_merge (self_kwargs (self st)) kwargs') key =
               (case map_of kwargs' key of
                  Some v \<Rightarrow> Some v
                | None \<Rightarrow> map_of (self_kwargs (self st)) key))) \<and>
         (\<exists>st' evs.
            final_state (request super_request py_float st method url args expected
              max_tries delay_unexpected log_tag kwargs) = st' \<and>
            trace st' = trace st @ evs \<and>
            (\<forall>m u a k r. Send ByRequest m u a k r \<in> set evs \<longrightarrow> k = kwargs))"
proof (intro conjI)
  let ?M = "if_none method' (self_method (self st))"
  let ?U = "if_none url' (self_url (self st))"
  let ?K = "dict_merge (self_kwargs (self st)) kwargs'"
  let ?n = "if_none max_tries' (self_auth_max_tries (self st))"
  let ?A = "auth_request super_request py_float st method' url' args' expected'
              max_tries' delay_unexpected' log_tag' kwargs'"
  obtain evs log where
    "trace (loop_state (for_else (auth_request_body super_request py_float ?M ?U args' ?K
               (if_none expected' (self_auth_expected (self st)))
               (max 0 (if_none delay_unexpected' (self_auth_delay_unexpected (self st)))))
             [1..max 1 ?n] (0, Response, st))) = trace st @ evs" and
    "self (final_state ?A) = self st" and
    trA: "trace (final_state ?A) = trace st @ evs @ log" and
    "\<exists>r rest. evs = Send ByAuthRequest ?M ?U args' ?K r # rest" and
    "int (calls_by ByAuthRequest evs) \<le> max 1 ?n" and
    q: "\<forall>x \<in> set evs. (\<exists>r. x = Send ByAuthRequest ?M ?U args' ?K r) \<or> (\<exists>s. x = Sleep s)" and
    nolog: "\<forall>x \<in> set log. (\<forall>who. \<not> is_send who x) \<and> (\<forall>s. x \<noteq> Sleep s) \<and>
       \<not> is_warning ByRequest x"
    by (rule auth_request_outcome)
  have "k = ?K" if "Send who m u a k r \<in> set (evs @ log)" for who m u a k r
  proof -
    from that nolog have "Send who m u a k r \<in> set evs" by fastforce
    with q show ?thesis by auto
  qed
  with trA show "\<exists>st' evs.
            final_state ?A = st' \<and>
            trace st' = trace st @ evs \<and>
            (\<forall>who m u a k r. Send who m u a k r \<in> set evs \<longrightarrow> k = ?K)"
    by (intro exI [of _ "final_state ?A"] exI [of _ "evs @ log"]) blast
next
  show "distinct (map fst kwargs') \<longrightarrow>
            (\<forall>key. map_of (dict_merge (self_kwargs (self st)) kwargs') key =
               (case map_of kwargs' key of
                  Some v \<Rightarrow> Some v
                | None \<Rightarrow> map_of (self_kwargs (self st)) key))"
    by (simp add: dict_merge_lookup map_add_def)
next
  let ?n = "if_none max_tries (self_max_tries (self st))"
  let ?R = "request super_request py_float st method url args expected
              max_tries delay_unexpected log_tag kwargs"
  obtain evs log where
    "trace (loop_state (for_else (request_body super_request py_float method url args kwargs
               (if_none expected (self_expected (self st)))
               (max 0 (if_none delay_unexpected (self_delay_unexpected (self st)))))
             [1..max 1 ?n] (0, Response, st))) = trace st @ evs" and
    "self (final_state ?R) = self st" and
    trA: "trace (final_state ?R) = trace st @ evs @ log" and
    "\<exists>r rest. evs = Send ByRequest method url args kwargs r # rest" and
    "int (calls_by ByRequest evs) \<le> max 1 ?n" and
    q: "\<forall>x \<in> set evs. (is_send ByRequest x \<longrightarrow> (\<exists>r. x = Send ByRequest method url args kwargs r)) \<and>
         \<not> is_warning ByRequest x" and
    nolog: "\<forall>x \<in> set log. (\<forall>who. \<not> is_send who x) \<and> (\<forall>s. x \<noteq> Sleep s) \<and>
       \<not> is_warning ByAuthRequest x"
    by (rule request_outcome)
  have "k = kwargs" if "Send ByRequest m u a k r \<in> set (evs @ log)" for m u a k r
  proof -
    from that nolog have "Send ByRequest m u a k r \<in> set evs" by fastforce
    with q have "\<exists>r'. Send ByRequest m u a k r = Send ByRequest method url args kwargs r'"
      by fastforce
    then show ?thesis by simp
  qed
  with trA show "\<exists>st' evs.
            final_state ?R = st' \<and>
            trace st' = trace st @ evs \<and>
            (\<forall>m u a k r. Send ByRequest m u a k r \<in> set evs \<longrightarrow> k = kwargs)"
    by (intro exI [of _ "final_state ?R"] exI [of _ "evs @ log"]) blast
qed

lemma merged_auth_events:
  "events_of (auth_request scripted float_5 (fresh [])
      None None [] None None None None [(''json'', ''other''), (''timeout'', ''5'')]) =
   [Send ByAuthRequest ''POST'' ''/authentication'' []
      [(''json'', ''other''), (''timeout'', ''5'')] (answer 200 [])]"
  by code_simp

lemma passed_request_events:
  "events_of (request scripted float_5 (fresh [])
      ''GET'' ''/data'' [] None None None None [(''timeout'', ''5'')]) =
   [Send ByRequest ''GET'' ''/data'' [] [(''timeout'', ''5'')] (answer 200 [])]"
  by code_simp

theorem keyword_arguments_sent_witness:
  "(\<exists>st' evs.
      final_state (auth_request scripted float_5 (fresh ([] :: response list))
        None None [] None None None None [(''json'', ''other''), (''timeout'', ''5'')]) = st' \<and>
      trace st' = trace (fresh ([] :: response list)) @ evs \<and>
      Send ByAuthRequest ''POST'' ''/authentication'' []
        [(''json'', ''other''), (''timeout'', ''5'')] (answer 200 []) \<in> set evs \<and>
      [(''json'', ''other''), (''timeout'', ''5'')] =
        dict_merge (self_kwargs (self (fresh ([] :: response list))))
          [(''json'', ''other''), (''timeout'', ''5'')]) \<and>
   distinct (map fst [(''json'', ''other''), (''timeout'', ''5'')]) \<and>
   map_of (dict_merge (self_kwargs (self (fresh ([] :: response list))))
       [(''json'', ''other''), (''timeout'', ''5'')]) ''json'' =
     (case map_of [(''json'', ''other''), (''timeout'', ''5'')] ''json'' of
        Some v \<Rightarrow> Some v
      | None \<Rightarrow> map_of (self_kwargs (self (fresh ([] :: response list)))) ''json'') \<and>
   (\<exists>st' evs.
      final_state (request scripted float_5 (fresh ([] :: response list))
        ''GET'' ''/data'' [] None None None None [(''timeout'', ''5'')]) = st' \<and>
      trace st' = trace (fresh ([] :: response list)) @ evs \<and>
      Send ByRequest ''GET'' ''/data'' [] [(''timeout'', ''5'')] (answer 200 []) \<in> set evs)"
proof -
  let ?st = "fresh ([] :: response list)"
  let ?kw = "[(''json'', ''other''), (''timeout'', ''5'')]"
  let ?A = "auth_request scripted float_5 ?st None None [] None None None None ?kw"
  let ?R = "request scripted float_5 ?st ''GET'' ''/data'' [] None None None None
             [(''timeout'', ''5'')]"
  note inst = keyword_arguments_sent [of scripted float_5 ?st
      None None "[]" None None None None ?kw
      "''GET''" "''/data''" "[]" None None None None "[(''timeout'', ''5'')]"]
  from inst obtain st' evs where
    fin: "final_state ?A = st'" and
    tr: "trace st' = trace ?st @ evs" and
    all: "\<And>who m u a k r. Send who m u a k r \<in> set evs \<Longrightarrow>
            k = dict_merge (self_kwargs (self ?st)) ?kw"
    by blast
  from tr have evs: "evs = [Send ByAuthRequest ''POST'' ''/authentication'' [] ?kw (answer 200 [])]"
    unfolding fin [symmetric] events_of_final merged_auth_events by (simp add: fresh_def)
  then have mem: "Send ByAuthRequest ''POST'' ''/authentication'' [] ?kw (answer 200 []) \<in> set evs"
    by simp
  have dist: "distinct (map fst ?kw)" by simp
  from inst dist have look: "map_of (dict_merge (self_kwargs (self ?st)) ?kw) ''json'' =
     (case map_of ?kw ''json'' of
        Some v \<Rightarrow> Some v
      | None \<Rightarrow> map_of (self_kwargs (self ?st)) ''json'')"
    by blast
  from inst obtain st2 evs2 where
    fin2: "final_state ?R = st2" and
    tr2: "trace st2 = trace ?st @ evs2"
    by blast
  from tr2 have "evs2 = [Send ByRequest ''GET'' ''/data'' [] [(''timeout'', ''5'')] (answer 200 [])]"
    unfolding fin2 [symmetric] events_of_final passed_request_events by (simp add: fresh_def)
  then have mem2: "Send ByRequest ''GET'' ''/data'' [] [(''timeout'', ''5'')] (answer 200 []) \<in> set evs2"
    by simp
  have a: "\<exists>st' evs.
      final_state ?A = st' \<and>
      trace st' = trace ?st @ evs \<and>
      Send ByAuthRequest ''POST'' ''/authentication'' [] ?kw (answer 200 []) \<in> set evs \<and>
      ?kw = dict_merge (self_kwargs (self ?st)) ?kw"
    by (intro exI [of _ st'] exI [of _ evs] conjI fin tr mem all [OF mem])
  have b: "\<exists>st' evs.
      final_state ?R = st' \<and>
      trace st' = trace ?st @ evs \<and>
      Send ByRequest ''GET'' ''/data'' [] [(''timeout'', ''5'')] (answer 200 []) \<in> set evs"
    by (intro exI [of _ st2] exI [of _ evs2] conjI fin2 tr2 mem2)
  from a dist look b show ?thesis by (intro conjI)
qed

end
